theory Spec2Isabelle
  imports Main
begin

section \<open>The FIFO queue of queue.go\<close>

subsection \<open>Values, maps and slices of Go\<close>

text \<open>
  The queue is generic in a type \<^verbatim>\<open>T comparable\<close>. Its code compares values with
  \<^verbatim>\<open>==\<close> and uses them as map keys, and for some types \<^verbatim>\<open>==\<close> is not the identity: a
  floating-point NaN is not equal to itself. The equality of \<^verbatim>\<open>T\<close> is therefore a
  parameter \<open>eqT\<close> of every function below that compares values; for strings and
  integers it is HOL equality, for \<^verbatim>\<open>float64\<close> it is \<open>float64_eq\<close>. Of \<^verbatim>\<open>float64\<close> the
  model keeps the whole numbers and one NaN.
\<close>

datatype float64 = Num int | NaN

fun float64_eq :: "float64 \<Rightarrow> float64 \<Rightarrow> bool" where
  "float64_eq (Num a) (Num b) = (a = b)"
| "float64_eq x y = False"

text \<open>
  A \<^verbatim>\<open>map[T]struct{}\<close> is modelled by the list of its keys. A lookup finds a key that is
  \<^verbatim>\<open>==\<close> to the given one; storing under a key that is found keeps the entry and
  otherwise adds one; \<^verbatim>\<open>delete\<close> removes the entry whose key is \<^verbatim>\<open>==\<close> to the given one
  and does nothing when there is none. So a NaN key is never found, is added again by
  every store, and is never deleted; \<^verbatim>\<open>clear\<close> removes every entry. The nil map of a
  queue without de-duplication reads like the empty map and is never written (every
  write is under \<^verbatim>\<open>if q.dedup\<close>), so it is the empty list here.
\<close>

definition map_has :: "('a \<Rightarrow> 'a \<Rightarrow> bool) \<Rightarrow> 'a list \<Rightarrow> 'a \<Rightarrow> bool" where
  "map_has eqT m v = list_ex (\<lambda>k. eqT k v) m"

definition map_store :: "('a \<Rightarrow> 'a \<Rightarrow> bool) \<Rightarrow> 'a list \<Rightarrow> 'a \<Rightarrow> 'a list" where
  "map_store eqT m v = (if map_has eqT m v then m else m @ [v])"

definition map_delete :: "('a \<Rightarrow> 'a \<Rightarrow> bool) \<Rightarrow> 'a list \<Rightarrow> 'a \<Rightarrow> 'a list" where
  "map_delete eqT m v = filter (\<lambda>k. \<not> eqT k v) m"

text \<open>
  \<^verbatim>\<open>make([]T, 0, capacity)\<close> panics at run time when the capacity is negative, and also
  when the memory asked for, the size of an element times the capacity, is more than the
  runtime allocates at all (its constant \<^verbatim>\<open>maxAlloc\<close>, which is less than \<open>2 ^ 64\<close>; it is
  \<open>2 ^ 48\<close> on 64-bit Linux). The size of an element of \<^verbatim>\<open>T\<close> in bytes and \<^verbatim>\<open>maxAlloc\<close>
  are parameters. Memory running out while a queue grows is outside this model.
\<close>

datatype panic =
    MakesliceCapOutOfRange | CloseOfClosedChannel | UnlockOfUnlockedMutex
  | NilPointerDereference

definition make_slice :: "nat \<Rightarrow> nat \<Rightarrow> int \<Rightarrow> panic + ('a list \<times> nat)" where
  "make_slice elem_size max_alloc capacity =
     (if capacity < 0 \<or> max_alloc < elem_size * nat capacity
      then Inl MakesliceCapOutOfRange
      else Inr ([], nat capacity))"

text \<open>
  \<^verbatim>\<open>append(s, v)\<close> keeps the capacity while there is room and otherwise moves to a
  larger array. The size of the new array is chosen by the Go runtime, not by this
  repository; \<open>growslice\<close> stands for that choice (doubling, at least the needed
  length), and no theorem below depends on which one it is.
\<close>

definition growslice :: "nat \<Rightarrow> nat \<Rightarrow> nat" where
  "growslice oldcap needed = max needed (2 * oldcap)"

definition append_cap :: "nat \<Rightarrow> nat \<Rightarrow> nat" where
  "append_cap len c = (if len < c then c else growslice c (len + 1))"

text \<open>
  \<^verbatim>\<open>copy(s[i:], src)\<close> overwrites \<^verbatim>\<open>s\<close> from index \<open>i\<close> with as many elements of
  \<^verbatim>\<open>src\<close> as fit; Go copies as if \<^verbatim>\<open>src\<close> were read first, also when both share an
  array.
\<close>

definition copy_at :: "'a list \<Rightarrow> nat \<Rightarrow> 'a list \<Rightarrow> 'a list" where
  "copy_at s i src = take i s @ take (length s - i) src @ drop (i + length src) s"

subsection \<open>The queue and its methods\<close>

text \<open>
  The struct \<^verbatim>\<open>Queue[T]\<close> holds the slice \<^verbatim>\<open>data\<close>, the presence map \<^verbatim>\<open>set\<close> and the flag
  \<^verbatim>\<open>dedup\<close>. The slice is modelled by its elements (\<open>data\<close>) together with its capacity
  (\<open>cap_data\<close>), so that the capacity given to \<^verbatim>\<open>NewWithCapacity\<close> is part of the state;
  the map is \<open>set_q\<close>. The mutex \<^verbatim>\<open>mu\<close> is locked at the start of every method and
  unlocked when it returns: each method is one critical section, modelled as a function
  from the state before to the result and the state after.
\<close>

record 'a queue =
  data :: "'a list"
  cap_data :: nat
  set_q :: "'a list"
  dedup :: bool

definition New :: "bool \<Rightarrow> 'a queue" where
  "New d = \<lparr>data = [], cap_data = 0, set_q = [], dedup = d\<rparr>"

definition NewWithCapacity :: "nat \<Rightarrow> nat \<Rightarrow> bool \<Rightarrow> int \<Rightarrow> panic + 'a queue" where
  "NewWithCapacity elem_size max_alloc d capacity =
     (let capacity = (if capacity < 0 then 0 else capacity) in
      case make_slice elem_size max_alloc capacity of
        Inl p \<Rightarrow> Inl p
      | Inr (xs, c) \<Rightarrow> Inr \<lparr>data = xs, cap_data = c, set_q = [], dedup = d\<rparr>)"

definition Enqueue :: "('a \<Rightarrow> 'a \<Rightarrow> bool) \<Rightarrow> 'a queue \<Rightarrow> 'a \<Rightarrow> bool \<times> 'a queue" where
  "Enqueue eqT q v =
     (if dedup q \<and> map_has eqT (set_q q) v then (False, q)
      else
        (let q1 = (if dedup q then q\<lparr>set_q := map_store eqT (set_q q) v\<rparr> else q)
         in (True, q1\<lparr>data := data q1 @ [v],
                      cap_data := append_cap (length (data q1)) (cap_data q1)\<rparr>)))"

text \<open>The loop of \<^verbatim>\<open>EnqueueMany\<close>, with the counter \<^verbatim>\<open>added\<close> as accumulator.\<close>

fun EnqueueMany_loop ::
  "('a \<Rightarrow> 'a \<Rightarrow> bool) \<Rightarrow> 'a queue \<Rightarrow> nat \<Rightarrow> 'a list \<Rightarrow> nat \<times> 'a queue" where
  "EnqueueMany_loop eqT q added [] = (added, q)"
| "EnqueueMany_loop eqT q added (v # items) =
     (if dedup q \<and> map_has eqT (set_q q) v then EnqueueMany_loop eqT q added items
      else
        (let q1 = (if dedup q then q\<lparr>set_q := map_store eqT (set_q q) v\<rparr> else q);
             q2 = q1\<lparr>data := data q1 @ [v],
                     cap_data := append_cap (length (data q1)) (cap_data q1)\<rparr>
         in EnqueueMany_loop eqT q2 (added + 1) items))"

definition EnqueueMany :: "('a \<Rightarrow> 'a \<Rightarrow> bool) \<Rightarrow> 'a queue \<Rightarrow> 'a list \<Rightarrow> nat \<times> 'a queue" where
  "EnqueueMany eqT q items = EnqueueMany_loop eqT q 0 items"

text \<open>
  A result \<^verbatim>\<open>(T, bool)\<close> is an option: \<open>None\<close> is the pair of the zero value and
  \<^verbatim>\<open>false\<close>, \<open>Some v\<close> is \<^verbatim>\<open>(v, true)\<close>.
\<close>

definition Dequeue :: "('a \<Rightarrow> 'a \<Rightarrow> bool) \<Rightarrow> 'a queue \<Rightarrow> 'a option \<times> 'a queue" where
  "Dequeue eqT q =
     (case data q of
        [] \<Rightarrow> (None, q)
      | v # rest \<Rightarrow>
          (let q1 = q\<lparr>data := rest, cap_data := cap_data q - 1\<rparr>
           in (Some v, if dedup q1 then q1\<lparr>set_q := map_delete eqT (set_q q1) v\<rparr> else q1)))"

definition Peek :: "'a queue \<Rightarrow> 'a option" where
  "Peek q = (case data q of [] \<Rightarrow> None | v # rest \<Rightarrow> Some v)"

definition Len :: "'a queue \<Rightarrow> nat" where
  "Len q = length (data q)"

definition IsEmpty :: "'a queue \<Rightarrow> bool" where
  "IsEmpty q = (Len q = 0)"

fun Contains_loop :: "('a \<Rightarrow> 'a \<Rightarrow> bool) \<Rightarrow> 'a \<Rightarrow> 'a list \<Rightarrow> bool" where
  "Contains_loop eqT v [] = False"
| "Contains_loop eqT v (x # xs) = (if eqT x v then True else Contains_loop eqT v xs)"

definition Contains :: "('a \<Rightarrow> 'a \<Rightarrow> bool) \<Rightarrow> 'a queue \<Rightarrow> 'a \<Rightarrow> bool" where
  "Contains eqT q v =
     (if dedup q then map_has eqT (set_q q) v else Contains_loop eqT v (data q))"

function Remove_loop ::
  "('a \<Rightarrow> 'a \<Rightarrow> bool) \<Rightarrow> 'a queue \<Rightarrow> 'a \<Rightarrow> nat \<Rightarrow> bool \<times> 'a queue" where
  "Remove_loop eqT q v i =
     (if i < length (data q) then
        (if eqT (data q ! i) v then
           (let moved = copy_at (data q) i (drop (i + 1) (data q));
                q1 = q\<lparr>data := take (length moved - 1) moved\<rparr>
            in (True, if dedup q1 then q1\<lparr>set_q := map_delete eqT (set_q q1) v\<rparr> else q1))
         else Remove_loop eqT q v (i + 1))
      else (False, q))"
  by pat_completeness auto
termination
  by (relation "measure (\<lambda>(eqT, q, v, i). length (data q) - i)") auto

declare Remove_loop.simps [simp del]

definition Remove :: "('a \<Rightarrow> 'a \<Rightarrow> bool) \<Rightarrow> 'a queue \<Rightarrow> 'a \<Rightarrow> bool \<times> 'a queue" where
  "Remove eqT q v = Remove_loop eqT q v 0"

definition Clear :: "'a queue \<Rightarrow> 'a queue" where
  "Clear q =
     (let q1 = q\<lparr>data := take 0 (data q)\<rparr>
      in if dedup q1 then q1\<lparr>set_q := []\<rparr> else q1)"

text \<open>
  \<^verbatim>\<open>ToSlice\<close> copies all of \<^verbatim>\<open>data\<close> into a fresh slice of the same length: the result
  is the list of the elements, and being a value it shares nothing with the queue.
\<close>

definition ToSlice :: "'a queue \<Rightarrow> 'a list" where
  "ToSlice q = take (length (data q)) (data q)"

subsection \<open>Sequences of calls\<close>

fun enqueue_all ::
  "('a \<Rightarrow> 'a \<Rightarrow> bool) \<Rightarrow> 'a queue \<Rightarrow> 'a list \<Rightarrow> bool list \<times> 'a queue" where
  "enqueue_all eqT q [] = ([], q)"
| "enqueue_all eqT q (v # vs) =
     (let (r, q1) = Enqueue eqT q v; (rs, q2) = enqueue_all eqT q1 vs in (r # rs, q2))"

fun dequeue_n ::
  "('a \<Rightarrow> 'a \<Rightarrow> bool) \<Rightarrow> nat \<Rightarrow> 'a queue \<Rightarrow> 'a option list \<times> 'a queue" where
  "dequeue_n eqT 0 q = ([], q)"
| "dequeue_n eqT (Suc n) q =
     (let (r, q1) = Dequeue eqT q; (rs, q2) = dequeue_n eqT n q1 in (r # rs, q2))"

datatype 'a op =
    OpEnqueue 'a | OpEnqueueMany "'a list" | OpDequeue | OpPeek | OpLen | OpIsEmpty
  | OpContains 'a | OpRemove 'a | OpClear | OpToSlice

datatype 'a res = RBool bool | RInt nat | RVal "'a option" | RUnit | RSlice "'a list"

fun call :: "('a \<Rightarrow> 'a \<Rightarrow> bool) \<Rightarrow> 'a op \<Rightarrow> 'a queue \<Rightarrow> 'a res \<times> 'a queue" where
  "call eqT (OpEnqueue v) q = (let (r, q1) = Enqueue eqT q v in (RBool r, q1))"
| "call eqT (OpEnqueueMany vs) q = (let (n, q1) = EnqueueMany eqT q vs in (RInt n, q1))"
| "call eqT OpDequeue q = (let (r, q1) = Dequeue eqT q in (RVal r, q1))"
| "call eqT OpPeek q = (RVal (Peek q), q)"
| "call eqT OpLen q = (RInt (Len q), q)"
| "call eqT OpIsEmpty q = (RBool (IsEmpty q), q)"
| "call eqT (OpContains v) q = (RBool (Contains eqT q v), q)"
| "call eqT (OpRemove v) q = (let (r, q1) = Remove eqT q v in (RBool r, q1))"
| "call eqT OpClear q = (RUnit, Clear q)"
| "call eqT OpToSlice q = (RSlice (ToSlice q), q)"

fun calls ::
  "('a \<Rightarrow> 'a \<Rightarrow> bool) \<Rightarrow> 'a op list \<Rightarrow> 'a queue \<Rightarrow> 'a res list \<times> 'a queue" where
  "calls eqT [] q = ([], q)"
| "calls eqT (c # cs) q =
     (let (r, q1) = call eqT c q; (rs, q2) = calls eqT cs q1 in (r # rs, q2))"

text \<open>The values that a call tries to put into the queue.\<close>

fun enqueued :: "'a op \<Rightarrow> 'a list" where
  "enqueued (OpEnqueue v) = [v]"
| "enqueued (OpEnqueueMany vs) = vs"
| "enqueued c = []"

section \<open>The blocking queue of blockingqueue.go\<close>

subsection \<open>Errors and contexts\<close>

text \<open>
  Go errors, as far as \<^verbatim>\<open>IsContextError\<close> can tell them apart: the two sentinel values
  of package context, any other error value, and an error wrapping another one.
  A nil error is \<open>None\<close>. \<^verbatim>\<open>errors.Is\<close> follows the chain of wrapped errors and compares
  each link with the target.
\<close>

datatype error = Canceled | DeadlineExceeded | ErrorString string | Wrapped string error

fun Is_chain :: "error \<Rightarrow> error \<Rightarrow> bool" where
  "Is_chain (Wrapped msg inner) target = (Wrapped msg inner = target \<or> Is_chain inner target)"
| "Is_chain e target = (e = target)"

definition errors_Is :: "error option \<Rightarrow> error \<Rightarrow> bool" where
  "errors_Is err target = (case err of None \<Rightarrow> False | Some e \<Rightarrow> Is_chain e target)"

definition ErrCanceled :: error where
  "ErrCanceled = Canceled"

definition ErrDeadlineExceeded :: error where
  "ErrDeadlineExceeded = DeadlineExceeded"

definition IsContextError :: "error option \<Rightarrow> bool" where
  "IsContextError err = (errors_Is err Canceled \<or> errors_Is err DeadlineExceeded)"

text \<open>
  A \<^verbatim>\<open>context.Context\<close> of the standard library is the background context, which is
  never done, or a context derived with a cancel function or a deadline. A derived
  context is active, or done because its cancel function was called, or done because
  its deadline passed; \<^verbatim>\<open>Err()\<close> is nil, \<^verbatim>\<open>Canceled\<close> or \<^verbatim>\<open>DeadlineExceeded\<close>
  accordingly, and the channel \<^verbatim>\<open>Done()\<close> is closed exactly when \<^verbatim>\<open>Err()\<close> is not nil.
  A nil interface value is \<open>None\<close>; calling a method on it panics.
\<close>

datatype ctx_state = Active | Cancelled | Expired

datatype "context" = Background | Derived ctx_state

fun ctx_Err :: "context \<Rightarrow> error option" where
  "ctx_Err Background = None"
| "ctx_Err (Derived Active) = None"
| "ctx_Err (Derived Cancelled) = Some Canceled"
| "ctx_Err (Derived Expired) = Some DeadlineExceeded"

definition ctx_Done_closed :: "context \<Rightarrow> bool" where
  "ctx_Done_closed c = (ctx_Err c \<noteq> None)"

subsection \<open>The queue with its mutex and condition variable\<close>

text \<open>
  The struct holds the mutex \<^verbatim>\<open>mu\<close>, the condition variable \<^verbatim>\<open>cv\<close> on that mutex and the
  queue \<^verbatim>\<open>q\<close> (here \<open>bq\<close>). The mutex is free (\<open>None\<close>) or held by a goroutine. Of the
  condition variable the model keeps the goroutines parked in \<^verbatim>\<open>Wait\<close>
  (\<open>cv_waiters\<close>) and counts the calls of \<^verbatim>\<open>Broadcast\<close> (\<open>cv_broadcasts\<close>), so that
  a broadcast that finds nobody waiting is still seen.
\<close>

datatype goroutine = Taker | Watcher nat | Other nat

record 'a bqueue =
  mu :: "goroutine option"
  cv_waiters :: "goroutine list"
  cv_broadcasts :: nat
  bq :: "'a queue"

definition New_bq :: "bool \<Rightarrow> 'a bqueue" where
  "New_bq d = \<lparr>mu = None, cv_waiters = [], cv_broadcasts = 0, bq = New d\<rparr>"

definition NewWithCapacity_bq :: "nat \<Rightarrow> nat \<Rightarrow> bool \<Rightarrow> int \<Rightarrow> panic + 'a bqueue" where
  "NewWithCapacity_bq elem_size max_alloc d capacity =
     (case NewWithCapacity elem_size max_alloc d capacity of
        Inl p \<Rightarrow> Inl p
      | Inr q0 \<Rightarrow> Inr \<lparr>mu = None, cv_waiters = [], cv_broadcasts = 0, bq = q0\<rparr>)"

text \<open>
  \<^verbatim>\<open>Lock\<close> succeeds when the mutex is free and otherwise makes the caller wait
  (\<open>None\<close>); \<^verbatim>\<open>Unlock\<close> of a mutex that is not locked is a fatal error.
  \<^verbatim>\<open>Broadcast\<close> wakes every goroutine parked in \<^verbatim>\<open>Wait\<close>. \<^verbatim>\<open>Wait\<close> puts the caller
  on the list of waiters and unlocks the mutex in one atomic step; the caller resumes
  only after a broadcast has taken it off the list, and locks the mutex again before
  \<^verbatim>\<open>Wait\<close> returns.
\<close>

definition Lock :: "goroutine \<Rightarrow> 'a bqueue \<Rightarrow> 'a bqueue option" where
  "Lock g b = (if mu b = None then Some (b\<lparr>mu := Some g\<rparr>) else None)"

definition Unlock :: "'a bqueue \<Rightarrow> panic + 'a bqueue" where
  "Unlock b = (if mu b = None then Inl UnlockOfUnlockedMutex else Inr (b\<lparr>mu := None\<rparr>))"

definition Broadcast :: "'a bqueue \<Rightarrow> 'a bqueue" where
  "Broadcast b = b\<lparr>cv_waiters := [], cv_broadcasts := cv_broadcasts b + 1\<rparr>"

definition Wait_park :: "goroutine \<Rightarrow> 'a bqueue \<Rightarrow> panic + 'a bqueue" where
  "Wait_park g b = Unlock (b\<lparr>cv_waiters := cv_waiters b @ [g]\<rparr>)"

definition Wait_resume :: "goroutine \<Rightarrow> 'a bqueue \<Rightarrow> 'a bqueue option" where
  "Wait_resume g b = (if g \<in> set (cv_waiters b) then None else Lock g b)"

text \<open>
  The methods other than \<^verbatim>\<open>Take\<close> lock the mutex, call the queue and unlock: each is
  one critical section, which a caller enters when the mutex is free. They are
  functions on the state between \<^verbatim>\<open>Lock\<close> and \<^verbatim>\<open>Unlock\<close>. The queue inside is reached
  only through these methods, so its own mutex is free whenever one of them calls it.
\<close>

definition Put :: "('a \<Rightarrow> 'a \<Rightarrow> bool) \<Rightarrow> 'a bqueue \<Rightarrow> 'a \<Rightarrow> bool \<times> 'a bqueue" where
  "Put eqT b v =
     (let (added, q1) = Enqueue eqT (bq b) v;
          b1 = b\<lparr>bq := q1\<rparr>
      in (added, if added then Broadcast b1 else b1))"

definition PutMany ::
  "('a \<Rightarrow> 'a \<Rightarrow> bool) \<Rightarrow> 'a bqueue \<Rightarrow> 'a list \<Rightarrow> nat \<times> 'a bqueue" where
  "PutMany eqT b items =
     (let (n, q1) = EnqueueMany eqT (bq b) items;
          b1 = b\<lparr>bq := q1\<rparr>
      in (n, if n > 0 then Broadcast b1 else b1))"

definition TryTake :: "('a \<Rightarrow> 'a \<Rightarrow> bool) \<Rightarrow> 'a bqueue \<Rightarrow> 'a option \<times> 'a bqueue" where
  "TryTake eqT b = (let (r, q1) = Dequeue eqT (bq b) in (r, b\<lparr>bq := q1\<rparr>))"

definition Remove_bq ::
  "('a \<Rightarrow> 'a \<Rightarrow> bool) \<Rightarrow> 'a bqueue \<Rightarrow> 'a \<Rightarrow> bool \<times> 'a bqueue" where
  "Remove_bq eqT b v =
     (let (removed, q1) = Remove eqT (bq b) v in (removed, b\<lparr>bq := q1\<rparr>))"

definition Clear_bq :: "'a bqueue \<Rightarrow> 'a bqueue" where
  "Clear_bq b = b\<lparr>bq := Clear (bq b)\<rparr>"

subsection \<open>Take as a system of goroutines\<close>

text \<open>
  A call of \<^verbatim>\<open>Take\<close> runs in the calling goroutine (the taker) and starts one watcher
  goroutine in each round of its loop. The state of the system is the blocking queue,
  the context, the program point of the taker, and for each watcher its program point
  and whether its channel \<^verbatim>\<open>done\<close> has been closed; the watcher of the current round is
  the last one. A panic in any goroutine ends the program (\<open>crash\<close>).
\<close>

datatype 'a taker =
    T_Lock | T_Fast | T_Spawn | T_Wait | T_Parked | T_Close | T_Recheck | T_CtxErr
  | T_Returned "error + 'a"

datatype watcher_pc = W_Select | W_Lock | W_Broadcast | W_Unlock | W_Exit

record 'a sys =
  bqu :: "'a bqueue"
  cx :: "context option"
  taker :: "'a taker"
  watchers :: "(watcher_pc \<times> bool) list"
  crash :: "panic option"

text \<open>Lines 73 to 75: a nil context is replaced by the background context.\<close>

definition Take_init :: "'a bqueue \<Rightarrow> context option \<Rightarrow> 'a sys" where
  "Take_init b c =
     \<lparr>bqu = b,
      cx = (if c = None then Some Background else c),
      taker = T_Lock, watchers = [], crash = None\<rparr>"

definition unlock_then :: "'a sys \<Rightarrow> 'a taker \<Rightarrow> 'a sys" where
  "unlock_then s pc =
     (case Unlock (bqu s) of
        Inl p \<Rightarrow> s\<lparr>crash := Some p\<rparr>
      | Inr b \<Rightarrow> s\<lparr>bqu := b, taker := pc\<rparr>)"

text \<open>
  One step of the taker, or \<open>None\<close> when it has to wait or has returned. The program
  points are: locking (line 76); the fast path (78 to 81); making \<^verbatim>\<open>done\<close> and starting
  the watcher (85 to 94); entering \<^verbatim>\<open>Wait\<close> (96); parked in \<^verbatim>\<open>Wait\<close>; closing
  \<^verbatim>\<open>done\<close> (97); the second \<^verbatim>\<open>Dequeue\<close> (99 to 102); the test of \<^verbatim>\<open>ctx.Err()\<close>
  (103 to 107).
\<close>

definition step_taker :: "('a \<Rightarrow> 'a \<Rightarrow> bool) \<Rightarrow> 'a sys \<Rightarrow> 'a sys option" where
  "step_taker eqT s =
     (case taker s of
        T_Lock \<Rightarrow>
          (case Lock Taker (bqu s) of
             None \<Rightarrow> None
           | Some b \<Rightarrow> Some (s\<lparr>bqu := b, taker := T_Fast\<rparr>))
      | T_Fast \<Rightarrow>
          (case Dequeue eqT (bq (bqu s)) of
             (Some v, q1) \<Rightarrow> Some (unlock_then (s\<lparr>bqu := (bqu s)\<lparr>bq := q1\<rparr>\<rparr>) (T_Returned (Inr v)))
           | (None, q1) \<Rightarrow> Some (s\<lparr>bqu := (bqu s)\<lparr>bq := q1\<rparr>, taker := T_Spawn\<rparr>))
      | T_Spawn \<Rightarrow> Some (s\<lparr>watchers := watchers s @ [(W_Select, False)], taker := T_Wait\<rparr>)
      | T_Wait \<Rightarrow>
          (case Wait_park Taker (bqu s) of
             Inl p \<Rightarrow> Some (s\<lparr>crash := Some p\<rparr>)
           | Inr b \<Rightarrow> Some (s\<lparr>bqu := b, taker := T_Parked\<rparr>))
      | T_Parked \<Rightarrow>
          (case Wait_resume Taker (bqu s) of
             None \<Rightarrow> None
           | Some b \<Rightarrow> Some (s\<lparr>bqu := b, taker := T_Close\<rparr>))
      | T_Close \<Rightarrow>
          (case rev (watchers s) of
             [] \<Rightarrow> None
           | (pc, closed) # older \<Rightarrow>
               (if closed then Some (s\<lparr>crash := Some CloseOfClosedChannel\<rparr>)
                else Some (s\<lparr>watchers := rev ((pc, True) # older), taker := T_Recheck\<rparr>)))
      | T_Recheck \<Rightarrow>
          (case Dequeue eqT (bq (bqu s)) of
             (Some v, q1) \<Rightarrow> Some (unlock_then (s\<lparr>bqu := (bqu s)\<lparr>bq := q1\<rparr>\<rparr>) (T_Returned (Inr v)))
           | (None, q1) \<Rightarrow> Some (s\<lparr>bqu := (bqu s)\<lparr>bq := q1\<rparr>, taker := T_CtxErr\<rparr>))
      | T_CtxErr \<Rightarrow>
          (case cx s of
             None \<Rightarrow> Some (s\<lparr>crash := Some NilPointerDereference\<rparr>)
           | Some c \<Rightarrow>
               (case ctx_Err c of
                  Some err \<Rightarrow> Some (unlock_then s (T_Returned (Inl err)))
                | None \<Rightarrow> Some (s\<lparr>taker := T_Spawn\<rparr>)))
      | T_Returned r \<Rightarrow> None)"

text \<open>
  One step of watcher \<open>i\<close> (lines 86 to 94). The \<^verbatim>\<open>select\<close> first evaluates
  \<^verbatim>\<open>ctx.Done()\<close>; then the case \<^verbatim>\<open><-ctx.Done()\<close> can be taken when the context is done
  and the case \<^verbatim>\<open><-done\<close> when the channel is closed. \<open>by_ctx\<close> says which of the two
  the step takes (when both are ready Go picks either); the steps after the \<^verbatim>\<open>select\<close>
  belong to the first case.
\<close>

definition step_watcher :: "nat \<Rightarrow> bool \<Rightarrow> 'a sys \<Rightarrow> 'a sys option" where
  "step_watcher i by_ctx s =
     (if i < length (watchers s) then
        (case watchers s ! i of
           (W_Select, closed) \<Rightarrow>
             (case cx s of
                None \<Rightarrow> Some (s\<lparr>crash := Some NilPointerDereference\<rparr>)
              | Some c \<Rightarrow>
                  (if by_ctx then
                     (if ctx_Done_closed c
                      then Some (s\<lparr>watchers := (watchers s)[i := (W_Lock, closed)]\<rparr>)
                      else None)
                   else
                     (if closed
                      then Some (s\<lparr>watchers := (watchers s)[i := (W_Exit, closed)]\<rparr>)
                      else None)))
         | (W_Lock, closed) \<Rightarrow>
             (if by_ctx then
                (case Lock (Watcher i) (bqu s) of
                   None \<Rightarrow> None
                 | Some b \<Rightarrow> Some (s\<lparr>bqu := b, watchers := (watchers s)[i := (W_Broadcast, closed)]\<rparr>))
              else None)
         | (W_Broadcast, closed) \<Rightarrow>
             (if by_ctx then
                Some (s\<lparr>bqu := Broadcast (bqu s), watchers := (watchers s)[i := (W_Unlock, closed)]\<rparr>)
              else None)
         | (W_Unlock, closed) \<Rightarrow>
             (if by_ctx then
                (case Unlock (bqu s) of
                   Inl p \<Rightarrow> Some (s\<lparr>crash := Some p\<rparr>)
                 | Inr b \<Rightarrow> Some (s\<lparr>bqu := b, watchers := (watchers s)[i := (W_Exit, closed)]\<rparr>))
              else None)
         | (W_Exit, closed) \<Rightarrow> None)
      else None)"

text \<open>
  What other goroutines can do to the same queue and context: a whole call of another
  method while the mutex is free, another call of \<^verbatim>\<open>Take\<close> parking in \<^verbatim>\<open>Wait\<close> or
  its watcher broadcasting, and the context becoming done.
\<close>

datatype 'a env_op =
    E_Put 'a | E_PutMany "'a list" | E_TryTake | E_Remove 'a | E_Clear
  | E_Park nat | E_Broadcast | E_Cancel | E_Deadline

fun ctx_fire :: "ctx_state \<Rightarrow> context option \<Rightarrow> context option" where
  "ctx_fire st (Some (Derived Active)) = Some (Derived st)"
| "ctx_fire st c = c"

definition step_env ::
  "('a \<Rightarrow> 'a \<Rightarrow> bool) \<Rightarrow> 'a env_op \<Rightarrow> 'a sys \<Rightarrow> 'a sys option" where
  "step_env eqT a s =
     (case a of
        E_Cancel \<Rightarrow> Some (s\<lparr>cx := ctx_fire Cancelled (cx s)\<rparr>)
      | E_Deadline \<Rightarrow> Some (s\<lparr>cx := ctx_fire Expired (cx s)\<rparr>)
      | _ \<Rightarrow>
         (if mu (bqu s) = None then
            (case a of
               E_Put v \<Rightarrow> Some (s\<lparr>bqu := snd (Put eqT (bqu s) v)\<rparr>)
             | E_PutMany vs \<Rightarrow> Some (s\<lparr>bqu := snd (PutMany eqT (bqu s) vs)\<rparr>)
             | E_TryTake \<Rightarrow> Some (s\<lparr>bqu := snd (TryTake eqT (bqu s))\<rparr>)
             | E_Remove v \<Rightarrow> Some (s\<lparr>bqu := snd (Remove_bq eqT (bqu s) v)\<rparr>)
             | E_Clear \<Rightarrow> Some (s\<lparr>bqu := Clear_bq (bqu s)\<rparr>)
             | E_Park n \<Rightarrow>
                 Some (s\<lparr>bqu := (bqu s)\<lparr>cv_waiters := cv_waiters (bqu s) @ [Other n]\<rparr>\<rparr>)
             | E_Broadcast \<Rightarrow> Some (s\<lparr>bqu := Broadcast (bqu s)\<rparr>)
             | _ \<Rightarrow> None)
          else None))"

datatype 'a event = Ev_Taker | Ev_Watcher nat bool | Ev_Env "'a env_op"

definition exec :: "('a \<Rightarrow> 'a \<Rightarrow> bool) \<Rightarrow> 'a event \<Rightarrow> 'a sys \<Rightarrow> 'a sys option" where
  "exec eqT ev s =
     (if crash s \<noteq> None then None
      else case ev of
             Ev_Taker \<Rightarrow> step_taker eqT s
           | Ev_Watcher i by_ctx \<Rightarrow> step_watcher i by_ctx s
           | Ev_Env a \<Rightarrow> step_env eqT a s)"

fun run :: "('a \<Rightarrow> 'a \<Rightarrow> bool) \<Rightarrow> 'a event list \<Rightarrow> 'a sys \<Rightarrow> 'a sys option" where
  "run eqT [] s = Some s"
| "run eqT (ev # evs) s =
     (case exec eqT ev s of None \<Rightarrow> None | Some s1 \<Rightarrow> run eqT evs s1)"

text \<open>
  The system on its own: the steps the taker and its watchers can take from a state.
  \<open>returns_within eqT n P s\<close> says that, however these steps are scheduled, the system
  never gets stuck or crashes and the taker returns after at most \<open>n\<close> steps, with a
  result and in a state that satisfy \<open>P\<close>.
\<close>

definition own_events :: "'a sys \<Rightarrow> 'a event list" where
  "own_events s =
     Ev_Taker # concat (map (\<lambda>i. [Ev_Watcher i True, Ev_Watcher i False]) [0..<length (watchers s)])"

definition successors :: "('a \<Rightarrow> 'a \<Rightarrow> bool) \<Rightarrow> 'a sys \<Rightarrow> 'a sys list" where
  "successors eqT s = List.map_filter (\<lambda>ev. exec eqT ev s) (own_events s)"

primrec returns_within ::
  "('a \<Rightarrow> 'a \<Rightarrow> bool) \<Rightarrow> nat \<Rightarrow> (error + 'a \<Rightarrow> 'a sys \<Rightarrow> bool) \<Rightarrow> 'a sys \<Rightarrow> bool" where
  "returns_within eqT 0 P s =
     (crash s = None \<and> (case taker s of T_Returned r \<Rightarrow> P r s | _ \<Rightarrow> False))"
| "returns_within eqT (Suc n) P s =
     (crash s = None \<and>
      (case taker s of
         T_Returned r \<Rightarrow> P r s
       | _ \<Rightarrow> successors eqT s \<noteq> [] \<and> list_all (returns_within eqT n P) (successors eqT s)))"

subsection \<open>Functions used in the statements and proofs\<close>

text \<open>
  \<open>remove_first P xs\<close> deletes the first element of \<open>xs\<close> that satisfies \<open>P\<close>. It is
  not part of the program: \<^verbatim>\<open>Remove\<close> is compared with it below.
\<close>

fun remove_first :: "('a \<Rightarrow> bool) \<Rightarrow> 'a list \<Rightarrow> 'a list" where
  "remove_first P [] = []"
| "remove_first P (x # xs) = (if P x then xs else x # remove_first P xs)"

text \<open>
  The state of a queue with de-duplication in which the presence map has exactly the
  stored values as its keys, each once, no two stored values are \<^verbatim>\<open>==\<close>, and every
  stored value is \<^verbatim>\<open>==\<close> to itself.
\<close>

definition mirror :: "('a \<Rightarrow> 'a \<Rightarrow> bool) \<Rightarrow> 'a queue \<Rightarrow> bool" where
  "mirror eqT q =
     (dedup q \<and> set (set_q q) = set (data q) \<and> distinct (set_q q) \<and>
      sorted_wrt (\<lambda>x y. \<not> eqT x y) (data q) \<and> list_all (\<lambda>x. eqT x x) (data q))"

subsection \<open>Invariants of the system\<close>

text \<open>
  Predicates on states that the proofs below carry along the runs of the system: the
  only errors the taker returns are the two of package context (\<open>err_ok\<close>); and, for
  the background context (\<open>bg_inv\<close>), no watcher ever leaves its \<^verbatim>\<open>select\<close> except to
  exit, the taker holds the mutex wherever it unlocks it, and the channel of the current
  round is open until the taker closes it.
\<close>

definition err_ok :: "'a sys \<Rightarrow> bool" where
  "err_ok s = (case taker s of T_Returned (Inl e) \<Rightarrow> e = Canceled \<or> e = DeadlineExceeded | _ \<Rightarrow> True)"

definition holds_mu :: "'a taker \<Rightarrow> bool" where
  "holds_mu pc = (pc = T_Fast \<or> pc = T_Spawn \<or> pc = T_Wait \<or> pc = T_Close \<or> pc = T_Recheck
                  \<or> pc = T_CtxErr)"

definition in_round :: "'a taker \<Rightarrow> bool" where
  "in_round pc = (pc = T_Wait \<or> pc = T_Parked \<or> pc = T_Close)"

definition idle :: "(watcher_pc \<times> bool) list \<Rightarrow> bool" where
  "idle ws = list_all (\<lambda>w. fst w = W_Select \<or> fst w = W_Exit) ws"

definition bg_inv :: "'a sys \<Rightarrow> bool" where
  "bg_inv s =
     (cx s = Some Background \<and> crash s = None \<and>
      idle (watchers s) \<and>
      (holds_mu (taker s) \<longrightarrow> mu (bqu s) \<noteq> None) \<and>
      (in_round (taker s) \<longrightarrow> watchers s \<noteq> [] \<and> \<not> snd (last (watchers s))) \<and>
      (case taker s of T_Returned (Inl e) \<Rightarrow> False | _ \<Rightarrow> True))"

section \<open>Properties of the queue\<close>

subsection \<open>Lookup and delete in the map\<close>

lemma map_has_iff: "map_has eqT m v \<longleftrightarrow> (\<exists>k\<in>set m. eqT k v)"
  by (simp add: map_has_def list_ex_iff)

lemma map_has_delete: "\<not> map_has eqT (map_delete eqT m v) v"
  by (simp add: map_has_iff map_delete_def)

lemma Contains_loop_iff: "Contains_loop eqT v xs \<longleftrightarrow> (\<exists>x\<in>set xs. eqT x v)"
  by (induction xs) auto

lemma float64_eq_symp: "symp float64_eq"
proof (rule sympI)
  fix x y assume "float64_eq x y"
  then show "float64_eq y x" by (cases x; cases y) simp_all
qed

lemma float64_eq_transp: "transp float64_eq"
proof (rule transpI)
  fix x y z assume "float64_eq x y" "float64_eq y z"
  then show "float64_eq x z" by (cases x; cases y; cases z) simp_all
qed

lemma eq_symp: "symp (=)"
  by (simp add: symp_def)

lemma eq_transp: "transp (=)"
  by (simp add: transp_def)

subsection \<open>First in, first out\<close>

lemma Enqueue_nodedup:
  "\<not> dedup q \<Longrightarrow>
   Enqueue eqT q v =
     (True, q\<lparr>data := data q @ [v], cap_data := append_cap (length (data q)) (cap_data q)\<rparr>)"
  by (simp add: Enqueue_def)

lemma enqueue_all_nodedup:
  "\<not> dedup q \<Longrightarrow>
     fst (enqueue_all eqT q vs) = replicate (length vs) True \<and>
     data (snd (enqueue_all eqT q vs)) = data q @ vs \<and>
     \<not> dedup (snd (enqueue_all eqT q vs))"
  by (induction vs arbitrary: q) (simp_all add: Enqueue_nodedup case_prod_beta)

lemma dequeue_n_nodedup:
  "\<not> dedup q \<Longrightarrow> data q = xs @ ys \<Longrightarrow>
     fst (dequeue_n eqT (length xs) q) = map Some xs \<and>
     data (snd (dequeue_n eqT (length xs) q)) = ys \<and>
     \<not> dedup (snd (dequeue_n eqT (length xs) q))"
proof (induction xs arbitrary: q)
  case Nil
  then show ?case by simp
next
  case (Cons x xs)
  let ?q1 = "q\<lparr>data := xs @ ys, cap_data := cap_data q - 1\<rparr>"
  from Cons.prems have d: "Dequeue eqT q = (Some x, ?q1)"
    by (simp add: Dequeue_def)
  have "\<not> dedup ?q1" "data ?q1 = xs @ ys" using Cons.prems by simp_all
  from Cons.IH [OF this] d show ?case by (simp add: case_prod_beta)
qed

lemma Dequeue_empty: "data q = [] \<Longrightarrow> Dequeue eqT q = (None, q)"
  by (simp add: Dequeue_def)

lemma fifo_from_empty:
  assumes "\<not> dedup q0" "data q0 = []"
  shows "let (added, q1) = enqueue_all eqT q0 xs;
             (got, q2) = dequeue_n eqT (length xs) q1
         in added = replicate (length xs) True \<and> got = map Some xs \<and>
            Dequeue eqT q2 = (None, q2)"
proof -
  obtain added q1 where e: "enqueue_all eqT q0 xs = (added, q1)"
    by (cases "enqueue_all eqT q0 xs")
  obtain got q2 where d: "dequeue_n eqT (length xs) q1 = (got, q2)"
    by (cases "dequeue_n eqT (length xs) q1")
  from enqueue_all_nodedup [OF assms(1), of eqT xs] e assms(2)
  have a: "added = replicate (length xs) True" "data q1 = xs @ []" "\<not> dedup q1" by simp_all
  from dequeue_n_nodedup [OF a(3) a(2), of eqT] d
  have "got = map Some xs" "data q2 = []" by simp_all
  with a(1) e d show ?thesis by (simp add: Dequeue_empty)
qed

lemma NewWithCapacity_cases:
  "NewWithCapacity elem_size max_alloc d c =
     (if 0 \<le> c \<and> max_alloc < elem_size * nat c then Inl MakesliceCapOutOfRange
      else Inr ((New d)\<lparr>cap_data := (if c < 0 then 0 else nat c)\<rparr>))"
  by (simp add: NewWithCapacity_def make_slice_def New_def)

text \<open>
  Claim C1. On a queue made without de-duplication, by \<^verbatim>\<open>New\<close> or by
  \<^verbatim>\<open>NewWithCapacity\<close>, and for every element type, every \<^verbatim>\<open>Enqueue\<close> of a sequence of
  values returns true, as many calls of \<^verbatim>\<open>Dequeue\<close> then return exactly those values in
  the order they were enqueued, each with ok true, and one more \<^verbatim>\<open>Dequeue\<close> returns ok
  false and leaves the state as it is.
\<close>

theorem fifo_order:
  "(let (added, q1) = enqueue_all eqT (New False) xs;
        (got, q2) = dequeue_n eqT (length xs) q1
    in added = replicate (length xs) True \<and> got = map Some xs \<and>
       Dequeue eqT q2 = (None, q2)) \<and>
   (case NewWithCapacity elem_size max_alloc False c of
      Inl p \<Rightarrow> True
    | Inr q0 \<Rightarrow>
        (let (added, q1) = enqueue_all eqT q0 xs;
             (got, q2) = dequeue_n eqT (length xs) q1
         in added = replicate (length xs) True \<and> got = map Some xs \<and>
            Dequeue eqT q2 = (None, q2)))"
proof -
  have 1: "\<not> dedup (New False)" "data (New False) = []" by (simp_all add: New_def)
  let ?q = "(New False)\<lparr>cap_data := (if c < 0 then 0 else nat c)\<rparr>"
  have 2: "\<not> dedup ?q" "data ?q = []" by (simp_all add: New_def)
  show ?thesis
    using fifo_from_empty [OF 1, of eqT xs] fifo_from_empty [OF 2, of eqT xs]
    by (simp add: NewWithCapacity_cases)
qed

subsection \<open>Remove\<close>

lemma copy_at_shift:
  assumes "i < length xs"
  shows "take (length (copy_at xs i (drop (i + 1) xs)) - 1) (copy_at xs i (drop (i + 1) xs))
           = take i xs @ drop (Suc i) xs"
proof -
  have "copy_at xs i (drop (i + 1) xs) = take i xs @ drop (Suc i) xs @ drop (length xs - 1) xs"
    using assms by (simp add: copy_at_def)
  moreover have "length (take i xs @ drop (Suc i) xs) = length xs - 1"
    using assms by simp
  ultimately show ?thesis
    using assms by simp
qed

lemma Remove_loop_found:
  assumes "i < length (data q)" "eqT (data q ! i) v"
  shows "Remove_loop eqT q v i =
           (True, q\<lparr>data := take i (data q) @ drop (Suc i) (data q),
                    set_q := (if dedup q then map_delete eqT (set_q q) v else set_q q)\<rparr>)"
  using assms copy_at_shift [OF assms(1)]
  by (subst Remove_loop.simps) (simp add: Let_def)

lemma Remove_loop_skip:
  assumes "i < length (data q)" "\<not> eqT (data q ! i) v"
  shows "Remove_loop eqT q v i = Remove_loop eqT q v (i + 1)"
  using assms by (subst Remove_loop.simps) simp

lemma Remove_loop_end:
  assumes "length (data q) \<le> i"
  shows "Remove_loop eqT q v i = (False, q)"
  using assms by (subst Remove_loop.simps) simp

lemma Remove_loop_remove_first:
  "i \<le> length (data q) \<Longrightarrow>
   Remove_loop eqT q v i =
     (if \<exists>x\<in>set (drop i (data q)). eqT x v
      then (True, q\<lparr>data := take i (data q) @ remove_first (\<lambda>x. eqT x v) (drop i (data q)),
                    set_q := (if dedup q then map_delete eqT (set_q q) v else set_q q)\<rparr>)
      else (False, q))"
proof (induction eqT q v i rule: Remove_loop.induct)
  case (1 eqT q v i)
  show ?case
  proof (cases "i < length (data q)")
    case False
    then show ?thesis by (simp add: Remove_loop_end)
  next
    case True
    then have dr: "drop i (data q) = data q ! i # drop (Suc i) (data q)"
      by (simp add: Cons_nth_drop_Suc)
    show ?thesis
    proof (cases "eqT (data q ! i) v")
      case True
      with \<open>i < length (data q)\<close> dr show ?thesis
        by (simp add: Remove_loop_found)
    next
      case False
      have tk: "take (Suc i) (data q) = take i (data q) @ [data q ! i]"
        using \<open>i < length (data q)\<close> by (simp add: take_Suc_conv_app_nth)
      from "1.IH" [OF \<open>i < length (data q)\<close> False] \<open>i < length (data q)\<close>
      have "Remove_loop eqT q v (i + 1) =
              (if \<exists>x\<in>set (drop (Suc i) (data q)). eqT x v
               then (True, q\<lparr>data := take (Suc i) (data q)
                                @ remove_first (\<lambda>x. eqT x v) (drop (Suc i) (data q)),
                    set_q := (if dedup q then map_delete eqT (set_q q) v else set_q q)\<rparr>)
               else (False, q))"
        by simp
      with False \<open>i < length (data q)\<close> dr tk show ?thesis
        by (auto simp add: Remove_loop_skip)
    qed
  qed
qed

lemma Remove_remove_first:
  "Remove eqT q v =
     (if \<exists>x\<in>set (data q). eqT x v
      then (True, q\<lparr>data := remove_first (\<lambda>x. eqT x v) (data q),
                    set_q := (if dedup q then map_delete eqT (set_q q) v else set_q q)\<rparr>)
      else (False, q))"
  using Remove_loop_remove_first [of 0 q eqT v] by (simp add: Remove_def)

lemma remove_first_index:
  "\<exists>x\<in>set xs. P x \<Longrightarrow>
   \<exists>i<length xs. P (xs ! i) \<and> (\<forall>j<i. \<not> P (xs ! j)) \<and>
      remove_first P xs = take i xs @ drop (Suc i) xs"
proof (induction xs)
  case Nil
  then show ?case by simp
next
  case (Cons x xs)
  show ?case
  proof (cases "P x")
    case True
    then have "P ((x # xs) ! 0) \<and> (\<forall>j<0. \<not> P ((x # xs) ! j)) \<and>
      remove_first P (x # xs) = take 0 (x # xs) @ drop (Suc 0) (x # xs)" by simp
    then show ?thesis by blast
  next
    case False
    with Cons.prems have "\<exists>y\<in>set xs. P y" by simp
    from Cons.IH [OF this] obtain i where i: "i < length xs" "P (xs ! i)"
      "\<forall>j<i. \<not> P (xs ! j)" "remove_first P xs = take i xs @ drop (Suc i) xs" by blast
    have "\<forall>j<Suc i. \<not> P ((x # xs) ! j)"
      using i(3) False by (auto simp: less_Suc_eq_0_disj)
    with i False have "Suc i < length (x # xs) \<and> P ((x # xs) ! Suc i) \<and>
        (\<forall>j<Suc i. \<not> P ((x # xs) ! j)) \<and>
        remove_first P (x # xs) = take (Suc i) (x # xs) @ drop (Suc (Suc i)) (x # xs)"
      by simp
    then show ?thesis by blast
  qed
qed

lemma remove_first_eq: "remove_first (\<lambda>x. x = v) xs = remove1 v xs"
  by (induction xs) auto

text \<open>
  Claim C6, as amended. \<^verbatim>\<open>Remove\<close> looks for the first element that is \<^verbatim>\<open>==\<close> to \<open>v\<close>.
  When there is one, it returns true and deletes the element at that index, keeping
  all other elements in their order; with de-duplication on it deletes the key from
  the presence map, so that \<open>v\<close> is no longer found there, and otherwise it leaves the
  map alone. When no element is \<^verbatim>\<open>==\<close> to \<open>v\<close> it returns false and the queue is
  unchanged; that is always so for a value that is not equal to itself, stored or not.
  For an element type whose \<^verbatim>\<open>==\<close> is the identity this is the removal of the first
  occurrence of \<open>v\<close>.
\<close>

theorem Remove_first_match:
  "((\<exists>x\<in>set (data q). eqT x v) \<longrightarrow>
      fst (Remove eqT q v) = True \<and>
      (\<exists>i<length (data q). eqT (data q ! i) v \<and> (\<forall>j<i. \<not> eqT (data q ! j) v) \<and>
          data (snd (Remove eqT q v)) = take i (data q) @ drop (Suc i) (data q)) \<and>
      set_q (snd (Remove eqT q v))
        = (if dedup q then map_delete eqT (set_q q) v else set_q q) \<and>
      (dedup q \<longrightarrow> \<not> Contains eqT (snd (Remove eqT q v)) v) \<and>
      dedup (snd (Remove eqT q v)) = dedup q) \<and>
   (\<not> (\<exists>x\<in>set (data q). eqT x v) \<longrightarrow> Remove eqT q v = (False, q)) \<and>
   (\<not> eqT v v \<and> symp eqT \<and> transp eqT \<longrightarrow> Remove eqT q v = (False, q)) \<and>
   (v \<in> set (data q) \<longrightarrow>
      fst (Remove (=) q v) = True \<and> data (snd (Remove (=) q v)) = remove1 v (data q)) \<and>
   (v \<notin> set (data q) \<longrightarrow> Remove (=) q v = (False, q))"
proof -
  have a: "fst (Remove eqT q v) = True \<and>
      (\<exists>i<length (data q). eqT (data q ! i) v \<and> (\<forall>j<i. \<not> eqT (data q ! j) v) \<and>
          data (snd (Remove eqT q v)) = take i (data q) @ drop (Suc i) (data q)) \<and>
      set_q (snd (Remove eqT q v))
        = (if dedup q then map_delete eqT (set_q q) v else set_q q) \<and>
      (dedup q \<longrightarrow> \<not> Contains eqT (snd (Remove eqT q v)) v) \<and>
      dedup (snd (Remove eqT q v)) = dedup q"
    if ex: "\<exists>x\<in>set (data q). eqT x v"
    using remove_first_index [of "data q" "\<lambda>x. eqT x v", OF ex] ex
    by (simp add: Remove_remove_first Contains_def map_has_delete)
  have b: "Remove eqT q v = (False, q)" if "\<not> (\<exists>x\<in>set (data q). eqT x v)"
    using that by (simp add: Remove_remove_first)
  have c: "Remove eqT q v = (False, q)" if "\<not> eqT v v \<and> symp eqT \<and> transp eqT"
  proof -
    have "\<not> eqT x v" for x
    proof
      assume "eqT x v"
      with that have "eqT v x" by (auto dest: sympD)
      with \<open>eqT x v\<close> that show False by (auto dest: transpD)
    qed
    then show ?thesis by (simp add: Remove_remove_first)
  qed
  have d: "fst (Remove (=) q v) = True \<and> data (snd (Remove (=) q v)) = remove1 v (data q)"
    if "v \<in> set (data q)"
    using that by (simp add: Remove_remove_first remove_first_eq)
  have e: "Remove (=) q v = (False, q)" if "v \<notin> set (data q)"
    using that by (simp add: Remove_remove_first)
  from a b c d e show ?thesis by blast
qed

theorem Remove_first_match_witness:
  "fst (Remove float64_eq
          \<lparr>data = [Num 1, Num 2, NaN, Num 2], cap_data = 4, set_q = [], dedup = False\<rparr> (Num 2))
     = True \<and>
   data (snd (Remove float64_eq
          \<lparr>data = [Num 1, Num 2, NaN, Num 2], cap_data = 4, set_q = [], dedup = False\<rparr> (Num 2)))
     = [Num 1, NaN, Num 2] \<and>
   Remove float64_eq
          \<lparr>data = [Num 1, Num 2, NaN, Num 2], cap_data = 4, set_q = [], dedup = False\<rparr> NaN
     = (False, \<lparr>data = [Num 1, Num 2, NaN, Num 2], cap_data = 4, set_q = [], dedup = False\<rparr>) \<and>
   Remove float64_eq
          \<lparr>data = [Num 1, Num 2, NaN, Num 2], cap_data = 4, set_q = [], dedup = False\<rparr> (Num 5)
     = (False, \<lparr>data = [Num 1, Num 2, NaN, Num 2], cap_data = 4, set_q = [], dedup = False\<rparr>) \<and>
   \<not> Contains float64_eq
       (snd (Remove float64_eq
          \<lparr>data = [Num 1, Num 2], cap_data = 2, set_q = [Num 1, Num 2], dedup = True\<rparr> (Num 2)))
       (Num 2) \<and>
   fst (Remove (=) \<lparr>data = [1, 2, 1, 2 :: int], cap_data = 4, set_q = [], dedup = False\<rparr> 2)
     = True \<and>
   Remove (=) \<lparr>data = [1, 2, 1, 2 :: int], cap_data = 4, set_q = [], dedup = False\<rparr> 7
     = (False, \<lparr>data = [1, 2, 1, 2], cap_data = 4, set_q = [], dedup = False\<rparr>)"
proof -
  let ?q = "\<lparr>data = [Num 1, Num 2, NaN, Num 2], cap_data = 4, set_q = [], dedup = False\<rparr>"
  let ?d = "\<lparr>data = [Num 1, Num 2], cap_data = 2, set_q = [Num 1, Num 2], dedup = True\<rparr>"
  let ?n = "\<lparr>data = [1, 2, 1, 2 :: int], cap_data = 4, set_q = [], dedup = False\<rparr>"
  have p: "\<exists>x\<in>set (data ?q). float64_eq x (Num 2)" by simp
  have pd: "\<exists>x\<in>set (data ?d). float64_eq x (Num 2)" by simp
  have a5: "\<not> (\<exists>x\<in>set (data ?q). float64_eq x (Num 5))" by simp
  have nan: "\<not> float64_eq NaN NaN \<and> symp float64_eq \<and> transp float64_eq"
    by (simp add: float64_eq_symp float64_eq_transp)
  have dd: "dedup ?d" by simp
  have i2: "2 \<in> set (data ?n)" and i7: "7 \<notin> set (data ?n)" by simp_all
  from Remove_first_match [where q="?q" and eqT="float64_eq" and v="Num 2"] p
  have 1: "fst (Remove float64_eq ?q (Num 2)) = True" by blast
  have 2: "data (snd (Remove float64_eq ?q (Num 2))) = [Num 1, NaN, Num 2]"
    by (simp add: Remove_remove_first)
  from Remove_first_match [where q="?q" and eqT="float64_eq" and v="NaN"] nan
  have 3: "Remove float64_eq ?q NaN = (False, ?q)" by blast
  from Remove_first_match [where q="?q" and eqT="float64_eq" and v="Num 5"] a5
  have 4: "Remove float64_eq ?q (Num 5) = (False, ?q)" by blast
  from Remove_first_match [where q="?d" and eqT="float64_eq" and v="Num 2"] pd dd
  have 5: "\<not> Contains float64_eq (snd (Remove float64_eq ?d (Num 2))) (Num 2)" by blast
  from Remove_first_match [where q="?n" and v=2] i2
  have 6: "fst (Remove (=) ?n 2) = True" by blast
  from Remove_first_match [where q="?n" and v=7] i7
  have 7: "Remove (=) ?n 7 = (False, ?n)" by blast
  from 1 2 3 4 5 6 7 show ?thesis by blast
qed

text \<open>
  On a queue of \<^verbatim>\<open>float64\<close> a NaN that is stored is not removed: \<^verbatim>\<open>Remove\<close> returns
  false and leaves it in the data.
\<close>

theorem Remove_skips_stored_NaN:
  "NaN \<in> set (data (snd (Enqueue float64_eq (New False) NaN))) \<and>
   Remove float64_eq (snd (Enqueue float64_eq (New False) NaN)) NaN
     = (False, snd (Enqueue float64_eq (New False) NaN))"
  by (simp add: Remove_remove_first Enqueue_def New_def)

subsection \<open>Enqueue\<close>

text \<open>
  Claim C2, as amended. With de-duplication on, \<^verbatim>\<open>Enqueue\<close> returns false and leaves the
  queue exactly as it was when the lookup in the presence map finds a key \<^verbatim>\<open>==\<close> to the
  value; otherwise it returns true, appends the value at the tail and adds it to the
  map. In a state where the keys of the map are the stored values, the lookup finds a
  key exactly when some stored value is \<^verbatim>\<open>==\<close> to the given one. A value that is not
  equal to itself is never found, so it is appended again even when it is stored. With
  de-duplication off \<^verbatim>\<open>Enqueue\<close> always returns true and appends the value at the tail.
\<close>

theorem Enqueue_semantics:
  "(dedup q \<and> Contains eqT q v \<longrightarrow> Enqueue eqT q v = (False, q)) \<and>
   (dedup q \<and> \<not> Contains eqT q v \<longrightarrow>
      fst (Enqueue eqT q v) = True \<and>
      data (snd (Enqueue eqT q v)) = data q @ [v] \<and>
      set_q (snd (Enqueue eqT q v)) = set_q q @ [v] \<and>
      dedup (snd (Enqueue eqT q v)) = dedup q) \<and>
   (\<not> dedup q \<longrightarrow>
      fst (Enqueue eqT q v) = True \<and>
      data (snd (Enqueue eqT q v)) = data q @ [v] \<and>
      set_q (snd (Enqueue eqT q v)) = set_q q \<and>
      dedup (snd (Enqueue eqT q v)) = dedup q) \<and>
   (dedup q \<and> set (set_q q) = set (data q) \<longrightarrow>
      Contains eqT q v = (\<exists>x\<in>set (data q). eqT x v)) \<and>
   (\<not> eqT v v \<and> symp eqT \<and> transp eqT \<longrightarrow> \<not> Contains eqT q v)"
proof -
  have "\<not> Contains eqT q v" if "\<not> eqT v v \<and> symp eqT \<and> transp eqT"
  proof -
    have "\<not> eqT x v" for x
    proof
      assume "eqT x v"
      with that have "eqT v x" by (auto dest: sympD)
      with \<open>eqT x v\<close> that show False by (auto dest: transpD)
    qed
    then show ?thesis by (simp add: Contains_def map_has_iff Contains_loop_iff)
  qed
  then show ?thesis
    by (simp add: Enqueue_def Contains_def map_store_def map_has_iff)
qed

theorem Enqueue_semantics_witness:
  "Enqueue float64_eq \<lparr>data = [Num 1], cap_data = 1, set_q = [Num 1], dedup = True\<rparr> (Num 1)
     = (False, \<lparr>data = [Num 1], cap_data = 1, set_q = [Num 1], dedup = True\<rparr>) \<and>
   data (snd (Enqueue float64_eq
       \<lparr>data = [Num 1], cap_data = 1, set_q = [Num 1], dedup = True\<rparr> (Num 2))) = [Num 1, Num 2] \<and>
   set_q (snd (Enqueue float64_eq
       \<lparr>data = [Num 1], cap_data = 1, set_q = [Num 1], dedup = True\<rparr> (Num 2))) = [Num 1, Num 2] \<and>
   data (snd (Enqueue float64_eq
       \<lparr>data = [NaN], cap_data = 1, set_q = [NaN], dedup = True\<rparr> NaN)) = [NaN, NaN] \<and>
   fst (Enqueue (=) \<lparr>data = [1::int], cap_data = 1, set_q = [], dedup = False\<rparr> 1) = True \<and>
   data (snd (Enqueue (=) \<lparr>data = [1::int], cap_data = 1, set_q = [], dedup = False\<rparr> 1)) = [1, 1]"
proof -
  let ?q = "\<lparr>data = [Num 1], cap_data = 1, set_q = [Num 1], dedup = True\<rparr>"
  let ?n = "\<lparr>data = [NaN], cap_data = 1, set_q = [NaN], dedup = True\<rparr>"
  let ?p = "\<lparr>data = [1::int], cap_data = 1, set_q = [], dedup = False\<rparr>"
  have c1: "dedup ?q \<and> Contains float64_eq ?q (Num 1)"
    by (simp add: Contains_def map_has_def)
  have c2: "dedup ?q \<and> \<not> Contains float64_eq ?q (Num 2)"
    by (simp add: Contains_def map_has_def)
  have nan: "\<not> float64_eq NaN NaN \<and> symp float64_eq \<and> transp float64_eq"
    by (simp add: float64_eq_symp float64_eq_transp)
  have dn: "dedup ?n" and np: "\<not> dedup ?p" by simp_all
  from Enqueue_semantics [where q="?q" and eqT=float64_eq and v="Num 1"] c1
  have 1: "Enqueue float64_eq ?q (Num 1) = (False, ?q)" by blast
  from Enqueue_semantics [where q="?q" and eqT=float64_eq and v="Num 2"] c2
  have 2: "data (snd (Enqueue float64_eq ?q (Num 2))) = data ?q @ [Num 2]"
    and 3: "set_q (snd (Enqueue float64_eq ?q (Num 2))) = set_q ?q @ [Num 2]" by blast+
  note n = Enqueue_semantics [where q="?n" and eqT=float64_eq and v=NaN]
  from n nan have "\<not> Contains float64_eq ?n NaN" by blast
  with n dn have 4: "data (snd (Enqueue float64_eq ?n NaN)) = data ?n @ [NaN]" by blast
  from Enqueue_semantics [where q="?p" and eqT="(=)" and v=1] np
  have 5: "fst (Enqueue (=) ?p 1) = True" and 6: "data (snd (Enqueue (=) ?p 1)) = data ?p @ [1]"
    by blast+
  from 1 2 3 4 5 6 show ?thesis by simp
qed

text \<open>
  On a queue of \<^verbatim>\<open>float64\<close> with de-duplication on, a NaN that is stored and is a key
  of the map is accepted again: the second \<^verbatim>\<open>Enqueue\<close> returns true and the data holds
  it twice.
\<close>

theorem Enqueue_accepts_stored_NaN:
  "dedup (snd (Enqueue float64_eq (New True) NaN)) \<and>
   NaN \<in> set (data (snd (Enqueue float64_eq (New True) NaN))) \<and>
   NaN \<in> set (set_q (snd (Enqueue float64_eq (New True) NaN))) \<and>
   fst (Enqueue float64_eq (snd (Enqueue float64_eq (New True) NaN)) NaN) = True \<and>
   data (snd (Enqueue float64_eq (snd (Enqueue float64_eq (New True) NaN)) NaN)) = [NaN, NaN]"
  by (simp add: Enqueue_def New_def map_has_def map_store_def)

subsection \<open>The presence map mirrors the data\<close>

lemma mirror_New: "mirror eqT (New True)"
  by (simp add: mirror_def New_def)

lemma mirror_cap: "mirror eqT (q\<lparr>cap_data := k\<rparr>) = mirror eqT q"
  by (simp add: mirror_def)

lemma Enqueue_mirror:
  assumes "symp eqT" "mirror eqT q" "eqT v v"
  shows "mirror eqT (snd (Enqueue eqT q v))"
proof (cases "map_has eqT (set_q q) v")
  case True
  with assms(2) show ?thesis by (simp add: Enqueue_def mirror_def)
next
  case False
  then have nk: "\<forall>k\<in>set (set_q q). \<not> eqT k v" by (simp add: map_has_iff)
  with assms(3) have "v \<notin> set (set_q q)" by blast
  moreover from nk assms(2) have "\<forall>x\<in>set (data q). \<not> eqT x v" by (simp add: mirror_def)
  ultimately show ?thesis
    using False assms(2,3)
    by (simp add: Enqueue_def mirror_def map_store_def sorted_wrt_append)
qed

lemma enqueue_all_mirror:
  "symp eqT \<Longrightarrow> mirror eqT q \<Longrightarrow> \<forall>v\<in>set vs. eqT v v \<Longrightarrow>
   mirror eqT (snd (enqueue_all eqT q vs))"
proof (induction vs arbitrary: q)
  case Nil
  then show ?case by simp
next
  case (Cons v vs)
  from Cons.prems have "eqT v v" "\<forall>v\<in>set vs. eqT v v" by simp_all
  from Enqueue_mirror [OF Cons.prems(1,2) this(1)] Cons.IH [OF Cons.prems(1) _ this(2)]
  show ?case by (simp add: case_prod_beta)
qed

lemma EnqueueMany_loop_enqueue_all:
  "EnqueueMany_loop eqT q n items =
     (n + length (filter (\<lambda>r. r) (fst (enqueue_all eqT q items))),
      snd (enqueue_all eqT q items))"
proof (induction items arbitrary: q n)
  case Nil
  then show ?case by simp
next
  case (Cons v items)
  show ?case
  proof (cases "dedup q \<and> map_has eqT (set_q q) v")
    case True
    then have "Enqueue eqT q v = (False, q)" by (simp add: Enqueue_def)
    with True Cons.IH [of q n] show ?thesis by (simp add: case_prod_beta)
  next
    case False
    let ?q1 = "if dedup q then q\<lparr>set_q := map_store eqT (set_q q) v\<rparr> else q"
    let ?q2 = "?q1\<lparr>data := data ?q1 @ [v],
                    cap_data := append_cap (length (data ?q1)) (cap_data ?q1)\<rparr>"
    from False have e: "Enqueue eqT q v = (True, ?q2)"
      by (cases "dedup q") (simp_all add: Enqueue_def Let_def)
    from False
    have "EnqueueMany_loop eqT q n (v # items) = EnqueueMany_loop eqT ?q2 (n + 1) items"
      by (cases "dedup q") (simp_all add: Let_def)
    with Cons.IH [of ?q2 "n + 1"] e show ?thesis by (simp add: case_prod_beta)
  qed
qed

lemma EnqueueMany_enqueue_all:
  "EnqueueMany eqT q items =
     (length (filter (\<lambda>r. r) (fst (enqueue_all eqT q items))), snd (enqueue_all eqT q items))"
  by (simp add: EnqueueMany_def EnqueueMany_loop_enqueue_all)

lemma Dequeue_mirror:
  assumes "symp eqT" "mirror eqT q"
  shows "mirror eqT (snd (Dequeue eqT q))"
proof (cases "data q")
  case Nil
  with assms(2) show ?thesis by (simp add: Dequeue_def)
next
  case (Cons x rest)
  from assms(2) Cons have xx: "eqT x x" and nr: "\<forall>y\<in>set rest. \<not> eqT x y"
    and keys: "set (set_q q) = insert x (set rest)"
    by (simp_all add: mirror_def)
  from nr assms(1) have "\<forall>y\<in>set rest. \<not> eqT y x" by (auto dest: sympD)
  with xx keys have "set (map_delete eqT (set_q q) x) = set rest"
    by (auto simp add: map_delete_def)
  with assms(2) Cons show ?thesis
    by (simp add: Dequeue_def mirror_def map_delete_def)
qed

lemma distinct_of_irrefl:
  "sorted_wrt (\<lambda>x y. \<not> eqT x y) xs \<Longrightarrow> \<forall>x\<in>set xs. eqT x x \<Longrightarrow> distinct xs"
  by (induction xs) auto

lemma unequal_of_sorted_wrt:
  "symp eqT \<Longrightarrow> sorted_wrt (\<lambda>x y. \<not> eqT x y) xs \<Longrightarrow>
   a \<in> set xs \<Longrightarrow> b \<in> set xs \<Longrightarrow> a \<noteq> b \<Longrightarrow> \<not> eqT a b"
proof (induction xs)
  case Nil
  then show ?case by simp
next
  case (Cons x xs)
  from Cons.prems(2) have hd: "\<forall>y\<in>set xs. \<not> eqT x y" and tl: "sorted_wrt (\<lambda>x y. \<not> eqT x y) xs"
    by simp_all
  from hd Cons.prems(1) have hd': "\<forall>y\<in>set xs. \<not> eqT y x" by (auto dest: sympD)
  show ?case
  proof (cases "a = x")
    case True
    with Cons.prems(4,5) have "b \<in> set xs" by auto
    with hd True show ?thesis by simp
  next
    case False
    with Cons.prems(3) have a: "a \<in> set xs" by simp
    show ?thesis
    proof (cases "b = x")
      case True
      with hd' a show ?thesis by simp
    next
      case False
      with Cons.prems(4) have "b \<in> set xs" by simp
      from Cons.IH [OF Cons.prems(1) tl a this Cons.prems(5)] show ?thesis .
    qed
  qed
qed

lemma set_remove_first_subset: "set (remove_first P xs) \<subseteq> set xs"
  by (induction xs) auto

lemma sorted_wrt_remove_first:
  "sorted_wrt R xs \<Longrightarrow> sorted_wrt R (remove_first P xs)"
proof (induction xs)
  case Nil
  then show ?case by simp
next
  case (Cons x xs)
  then show ?case using set_remove_first_subset [of P xs] by auto
qed

lemma set_remove_first:
  "distinct xs \<Longrightarrow> \<exists>x\<in>set xs. P x \<Longrightarrow>
   \<exists>x\<in>set xs. P x \<and> set (remove_first P xs) = set xs - {x}"
proof (induction xs)
  case Nil
  then show ?case by simp
next
  case (Cons y ys)
  show ?case
  proof (cases "P y")
    case True
    with Cons.prems(1) have "set (remove_first P (y # ys)) = set (y # ys) - {y}" by auto
    with True show ?thesis by auto
  next
    case False
    with Cons.prems have "distinct ys" "\<exists>x\<in>set ys. P x" by auto
    from Cons.IH [OF this] obtain x where x: "x \<in> set ys" "P x"
      "set (remove_first P ys) = set ys - {x}" by blast
    from x(1) Cons.prems(1) have "x \<noteq> y" by auto
    with x(3) False have "set (remove_first P (y # ys)) = set (y # ys) - {x}" by auto
    with x(1,2) show ?thesis by auto
  qed
qed

lemma Remove_mirror:
  assumes "symp eqT" "transp eqT" "mirror eqT q"
  shows "mirror eqT (snd (Remove eqT q v))"
proof (cases "\<exists>x\<in>set (data q). eqT x v")
  case False
  with assms(3) show ?thesis by (simp add: Remove_remove_first)
next
  case True
  let ?rest = "remove_first (\<lambda>x. eqT x v) (data q)"
  from assms(3) have s: "sorted_wrt (\<lambda>x y. \<not> eqT x y) (data q)"
    and r: "\<forall>x\<in>set (data q). eqT x x"
    and k: "set (set_q q) = set (data q)" and dk: "distinct (set_q q)" and dd: "dedup q"
    by (simp_all add: mirror_def list_all_iff)
  from distinct_of_irrefl [OF s r] have dist: "distinct (data q)" .
  from set_remove_first [OF dist True] obtain x where x: "x \<in> set (data q)" "eqT x v"
    "set ?rest = set (data q) - {x}" by blast
  have nomatch: "\<not> eqT y v" if "y \<in> set (data q)" "y \<noteq> x" for y
  proof
    assume "eqT y v"
    moreover from x(2) assms(1) have "eqT v x" by (auto dest: sympD)
    ultimately have "eqT y x" using assms(2) by (auto dest: transpD)
    with unequal_of_sorted_wrt [OF assms(1) s that(1) x(1) that(2)] show False by simp
  qed
  have "set (map_delete eqT (set_q q) v) = set (data q) - {x}"
    using k x(2) nomatch by (auto simp add: map_delete_def)
  with x(3) have keys: "set (map_delete eqT (set_q q) v) = set ?rest" by simp
  have 1: "sorted_wrt (\<lambda>x y. \<not> eqT x y) ?rest" by (rule sorted_wrt_remove_first [OF s])
  have 2: "list_all (\<lambda>x. eqT x x) ?rest"
    using r set_remove_first_subset [of "\<lambda>x. eqT x v" "data q"] by (auto simp add: list_all_iff)
  have 3: "distinct (map_delete eqT (set_q q) v)" using dk by (simp add: map_delete_def)
  have "snd (Remove eqT q v) = q\<lparr>data := ?rest, set_q := map_delete eqT (set_q q) v\<rparr>"
    using True dd by (simp add: Remove_remove_first)
  with keys 1 2 3 dd show ?thesis by (simp add: mirror_def)
qed

lemma Clear_mirror:
  assumes "mirror eqT q"
  shows "mirror eqT (Clear q)"
  using assms by (simp add: Clear_def mirror_def)

lemma call_mirror:
  assumes "symp eqT" "transp eqT" "mirror eqT q" "\<forall>v\<in>set (enqueued c). eqT v v"
  shows "mirror eqT (snd (call eqT c q))"
proof (cases c)
  case (OpEnqueue v)
  with Enqueue_mirror [OF assms(1,3), of v] assms(4) show ?thesis
    by (simp add: case_prod_beta)
next
  case (OpEnqueueMany vs)
  with enqueue_all_mirror [OF assms(1,3), of vs] assms(4) show ?thesis
    by (simp add: case_prod_beta EnqueueMany_enqueue_all)
next
  case OpDequeue
  with Dequeue_mirror [OF assms(1,3)] show ?thesis by (simp add: case_prod_beta)
next
  case (OpRemove v)
  with Remove_mirror [OF assms(1,2,3), of v] show ?thesis by (simp add: case_prod_beta)
next
  case OpClear
  with Clear_mirror [OF assms(3)] show ?thesis by simp
qed (use assms in simp_all)

lemma calls_mirror:
  "symp eqT \<Longrightarrow> transp eqT \<Longrightarrow> mirror eqT q \<Longrightarrow>
   \<forall>c\<in>set cs. \<forall>v\<in>set (enqueued c). eqT v v \<Longrightarrow>
   mirror eqT (snd (calls eqT cs q))"
proof (induction cs arbitrary: q)
  case Nil
  then show ?case by simp
next
  case (Cons c cs)
  from Cons.prems(4) have h: "\<forall>v\<in>set (enqueued c). eqT v v"
    and t: "\<forall>c\<in>set cs. \<forall>v\<in>set (enqueued c). eqT v v" by simp_all
  from call_mirror [OF Cons.prems(1,2,3) h] Cons.IH [OF Cons.prems(1,2) _ t]
  show ?case by (simp add: case_prod_beta)
qed

lemma mirror_distinct:
  assumes "mirror eqT q"
  shows "distinct (data q)"
  using assms distinct_of_irrefl [of eqT "data q"] by (simp add: mirror_def list_all_iff)

text \<open>
  Claim C3, as amended. Let \<^verbatim>\<open>==\<close> on the element type be symmetric and transitive, as it
  is in Go. Start from a fresh queue with de-duplication on (made by \<^verbatim>\<open>New\<close> or by
  \<^verbatim>\<open>NewWithCapacity\<close>) and make any sequence of calls in which every value enqueued is
  equal to itself. Afterwards a value is a key of the presence map if and only if it
  occurs in the data, no key and no stored value occurs twice, and \<^verbatim>\<open>Contains\<close> finds a
  value exactly when a stored value is \<^verbatim>\<open>==\<close> to it.
\<close>

theorem membership_mirrors_sequence:
  assumes "symp eqT" and "transp eqT"
    and "\<forall>c\<in>set cs. \<forall>v\<in>set (enqueued c). eqT v v"
  shows
    "(\<forall>v. v \<in> set (set_q (snd (calls eqT cs (New True))))
          \<longleftrightarrow> v \<in> set (data (snd (calls eqT cs (New True))))) \<and>
     distinct (data (snd (calls eqT cs (New True)))) \<and>
     distinct (set_q (snd (calls eqT cs (New True)))) \<and>
     (\<forall>v. Contains eqT (snd (calls eqT cs (New True))) v
          \<longleftrightarrow> (\<exists>x\<in>set (data (snd (calls eqT cs (New True)))). eqT x v)) \<and>
     (case NewWithCapacity elem_size max_alloc True c of
        Inl p \<Rightarrow> True
      | Inr q0 \<Rightarrow>
          (\<forall>v. v \<in> set (set_q (snd (calls eqT cs q0))) \<longleftrightarrow> v \<in> set (data (snd (calls eqT cs q0)))) \<and>
          distinct (data (snd (calls eqT cs q0))) \<and>
          distinct (set_q (snd (calls eqT cs q0))) \<and>
          (\<forall>v. Contains eqT (snd (calls eqT cs q0)) v
               \<longleftrightarrow> (\<exists>x\<in>set (data (snd (calls eqT cs q0))). eqT x v)))"
proof -
  have *: "(\<forall>v. v \<in> set (set_q (snd (calls eqT cs q0))) \<longleftrightarrow> v \<in> set (data (snd (calls eqT cs q0)))) \<and>
          distinct (data (snd (calls eqT cs q0))) \<and>
          distinct (set_q (snd (calls eqT cs q0))) \<and>
          (\<forall>v. Contains eqT (snd (calls eqT cs q0)) v
               \<longleftrightarrow> (\<exists>x\<in>set (data (snd (calls eqT cs q0))). eqT x v))"
    if "mirror eqT q0" for q0
  proof -
    from calls_mirror [OF assms(1,2) that assms(3)]
    have m: "mirror eqT (snd (calls eqT cs q0))" .
    from m mirror_distinct [OF m] show ?thesis
      by (simp add: mirror_def Contains_def map_has_iff)
  qed
  have "mirror eqT ((New True)\<lparr>cap_data := (if c < 0 then 0 else nat c)\<rparr>)"
    by (simp add: mirror_cap mirror_New)
  from * [OF mirror_New] * [OF this] show ?thesis
    by (simp add: NewWithCapacity_cases)
qed

theorem membership_mirrors_sequence_witness:
  "symp float64_eq \<and> transp float64_eq \<and>
   data (snd (calls float64_eq
      [OpEnqueueMany [Num 1, Num 2, Num 1], OpDequeue, OpEnqueue (Num 3), OpRemove (Num 2),
       OpRemove NaN] (New True))) = [Num 3] \<and>
   set_q (snd (calls float64_eq
      [OpEnqueueMany [Num 1, Num 2, Num 1], OpDequeue, OpEnqueue (Num 3), OpRemove (Num 2),
       OpRemove NaN] (New True))) = [Num 3] \<and>
   distinct (data (snd (calls float64_eq
      [OpEnqueueMany [Num 1, Num 2, Num 1], OpDequeue, OpEnqueue (Num 3), OpRemove (Num 2),
       OpRemove NaN] (New True))))"
proof -
  let ?cs = "[OpEnqueueMany [Num 1, Num 2, Num 1], OpDequeue, OpEnqueue (Num 3),
              OpRemove (Num 2), OpRemove NaN]"
  have h: "\<forall>c\<in>set ?cs. \<forall>v\<in>set (enqueued c). float64_eq v v" by simp
  from membership_mirrors_sequence [OF float64_eq_symp float64_eq_transp h]
  have d: "distinct (data (snd (calls float64_eq ?cs (New True))))" by blast
  have e: "snd (calls float64_eq ?cs (New True))
      = \<lparr>data = [Num 3], cap_data = 2, set_q = [Num 3], dedup = True\<rparr>"
    by (simp add: EnqueueMany_def Enqueue_def Dequeue_def Remove_remove_first New_def
        map_has_def map_store_def map_delete_def append_cap_def growslice_def)
  from d e float64_eq_symp float64_eq_transp show ?thesis by simp
qed

text \<open>
  On a queue of \<^verbatim>\<open>float64\<close> with de-duplication on, two calls of \<^verbatim>\<open>Enqueue\<close> with NaN
  store it twice, and after two calls of \<^verbatim>\<open>Dequeue\<close> the data is empty while the map
  still has both keys.
\<close>

theorem membership_fails_for_NaN:
  "data (snd (calls float64_eq [OpEnqueue NaN, OpEnqueue NaN] (New True))) = [NaN, NaN] \<and>
   \<not> distinct (data (snd (calls float64_eq [OpEnqueue NaN, OpEnqueue NaN] (New True)))) \<and>
   data (snd (calls float64_eq [OpEnqueue NaN, OpEnqueue NaN, OpDequeue, OpDequeue] (New True)))
     = [] \<and>
   set_q (snd (calls float64_eq [OpEnqueue NaN, OpEnqueue NaN, OpDequeue, OpDequeue] (New True)))
     = [NaN, NaN]"
  by (simp add: Enqueue_def Dequeue_def New_def map_has_def map_store_def map_delete_def)

subsection \<open>EnqueueMany\<close>

text \<open>
  Claim C4. \<^verbatim>\<open>EnqueueMany\<close> leaves the queue in the state that calling \<^verbatim>\<open>Enqueue\<close> on
  each item in the given order leaves it in, and returns the number of those calls that
  return true. On a fresh queue of strings with de-duplication on, the items a, b, a, c,
  b give the count 3 and the contents a, b, c.
\<close>

theorem EnqueueMany_counts_added:
  "EnqueueMany eqT q items =
     (length (filter (\<lambda>added. added) (fst (enqueue_all eqT q items))),
      snd (enqueue_all eqT q items)) \<and>
   fst (EnqueueMany (=) (New True) [''a'', ''b'', ''a'', ''c'', ''b'']) = 3 \<and>
   ToSlice (snd (EnqueueMany (=) (New True) [''a'', ''b'', ''a'', ''c'', ''b'']))
     = [''a'', ''b'', ''c'']"
  by (simp add: EnqueueMany_enqueue_all)
     (simp add: New_def Enqueue_def ToSlice_def map_has_def map_store_def)

subsection \<open>Re-admission\<close>



subsection \<open>Capacity\<close>











section \<open>Properties of the blocking queue\<close>

subsection \<open>Put and PutMany\<close>

lemma Put_unfold:
  "Put eqT b v =
     (if fst (Enqueue eqT (bq b) v)
      then (True, Broadcast (b\<lparr>bq := snd (Enqueue eqT (bq b) v)\<rparr>))
      else (False, b\<lparr>bq := snd (Enqueue eqT (bq b) v)\<rparr>))"
  by (simp add: Put_def case_prod_beta Let_def)

lemma Enqueue_rejected: "\<not> fst (Enqueue eqT q v) \<Longrightarrow> snd (Enqueue eqT q v) = q"
  by (simp add: Enqueue_def split: if_splits)

lemma PutMany_unfold:
  "PutMany eqT b items =
     (if 0 < fst (EnqueueMany eqT (bq b) items)
      then (fst (EnqueueMany eqT (bq b) items), Broadcast (b\<lparr>bq := snd (EnqueueMany eqT (bq b) items)\<rparr>))
      else (0, b\<lparr>bq := snd (EnqueueMany eqT (bq b) items)\<rparr>))"
  by (simp add: PutMany_def case_prod_beta Let_def)

text \<open>
  Claim C8. \<^verbatim>\<open>Put\<close> returns what \<^verbatim>\<open>Enqueue\<close> returns and calls \<^verbatim>\<open>Broadcast\<close> once when
  that is true and not at all when it is false. A rejected \<^verbatim>\<open>Put\<close> leaves the whole
  state as it was, so the goroutines parked in \<^verbatim>\<open>Wait\<close> stay parked, and a taker parked
  in \<^verbatim>\<open>Take\<close> still cannot move; after an accepted \<^verbatim>\<open>Put\<close> a parked taker can move
  as soon as the mutex is free. \<^verbatim>\<open>PutMany\<close> returns the count of \<^verbatim>\<open>EnqueueMany\<close> and
  calls \<^verbatim>\<open>Broadcast\<close> once when the count is positive and not at all when it is zero.
\<close>

theorem Put_broadcasts_iff_added:
  "fst (Put eqT b v) = fst (Enqueue eqT (bq b) v) \<and>
   bq (snd (Put eqT b v)) = snd (Enqueue eqT (bq b) v) \<and>
   cv_broadcasts (snd (Put eqT b v)) = (if fst (Put eqT b v) then cv_broadcasts b + 1 else cv_broadcasts b) \<and>
   cv_waiters (snd (Put eqT b v)) = (if fst (Put eqT b v) then [] else cv_waiters b) \<and>
   mu (snd (Put eqT b v)) = mu b \<and>
   (\<not> fst (Put eqT b v) \<longrightarrow> snd (Put eqT b v) = b) \<and>
   (\<not> fst (Put eqT (bqu s) v) \<and> taker s = T_Parked \<and> Taker \<in> set (cv_waiters (bqu s)) \<longrightarrow>
      step_taker eqT (s\<lparr>bqu := snd (Put eqT (bqu s) v)\<rparr>) = None) \<and>
   (fst (Put eqT (bqu s) v) \<and> taker s = T_Parked \<and> mu (bqu s) = None \<longrightarrow>
      step_taker eqT (s\<lparr>bqu := snd (Put eqT (bqu s) v)\<rparr>) \<noteq> None) \<and>
   fst (PutMany eqT b items) = fst (EnqueueMany eqT (bq b) items) \<and>
   bq (snd (PutMany eqT b items)) = snd (EnqueueMany eqT (bq b) items) \<and>
   cv_broadcasts (snd (PutMany eqT b items))
     = (if 0 < fst (PutMany eqT b items) then cv_broadcasts b + 1 else cv_broadcasts b) \<and>
   cv_waiters (snd (PutMany eqT b items)) = (if 0 < fst (PutMany eqT b items) then [] else cv_waiters b) \<and>
   mu (snd (PutMany eqT b items)) = mu b"
proof -
  have rejected: "snd (Put eqT c v) = c" if "\<not> fst (Put eqT c v)" for c :: "'a bqueue"
    using that by (simp add: Put_unfold Enqueue_rejected split: if_splits)
  have stays: "step_taker eqT (s\<lparr>bqu := snd (Put eqT (bqu s) v)\<rparr>) = None"
    if "\<not> fst (Put eqT (bqu s) v)" "taker s = T_Parked" "Taker \<in> set (cv_waiters (bqu s))"
    using that rejected [of "bqu s"] by (simp add: step_taker_def Wait_resume_def)
  have wakes: "step_taker eqT (s\<lparr>bqu := snd (Put eqT (bqu s) v)\<rparr>) \<noteq> None"
    if "fst (Put eqT (bqu s) v)" "taker s = T_Parked" "mu (bqu s) = None"
    using that
    by (simp add: step_taker_def Wait_resume_def Lock_def Put_unfold Broadcast_def
        split: if_splits)
  from stays wakes show ?thesis
    by (simp add: Put_unfold PutMany_unfold Broadcast_def Enqueue_rejected)
qed

theorem Put_broadcasts_iff_added_witness:
  "\<not> fst (Put (=) \<lparr>mu = None, cv_waiters = [Taker], cv_broadcasts = 1,
                  bq = \<lparr>data = [1::int], cap_data = 1, set_q = [1], dedup = True\<rparr>\<rparr> 1) \<and>
   snd (Put (=) \<lparr>mu = None, cv_waiters = [Taker], cv_broadcasts = 1,
              bq = \<lparr>data = [1::int], cap_data = 1, set_q = [1], dedup = True\<rparr>\<rparr> 1)
     = \<lparr>mu = None, cv_waiters = [Taker], cv_broadcasts = 1,
        bq = \<lparr>data = [1::int], cap_data = 1, set_q = [1], dedup = True\<rparr>\<rparr> \<and>
   step_taker (=)
     (\<lparr>bqu = \<lparr>mu = None, cv_waiters = [Taker], cv_broadcasts = 1,
               bq = \<lparr>data = [1::int], cap_data = 1, set_q = [1], dedup = True\<rparr>\<rparr>,
       cx = Some Background, taker = T_Parked, watchers = [(W_Select, False)], crash = None\<rparr>
      \<lparr>bqu := snd (Put (=) \<lparr>mu = None, cv_waiters = [Taker], cv_broadcasts = 1,
               bq = \<lparr>data = [1::int], cap_data = 1, set_q = [1], dedup = True\<rparr>\<rparr> 1)\<rparr>) = None \<and>
   fst (Put (=) \<lparr>mu = None, cv_waiters = [Taker], cv_broadcasts = 1,
              bq = \<lparr>data = [1::int], cap_data = 1, set_q = [1], dedup = True\<rparr>\<rparr> 2) \<and>
   step_taker (=)
     (\<lparr>bqu = \<lparr>mu = None, cv_waiters = [Taker], cv_broadcasts = 1,
               bq = \<lparr>data = [1::int], cap_data = 1, set_q = [1], dedup = True\<rparr>\<rparr>,
       cx = Some Background, taker = T_Parked, watchers = [(W_Select, False)], crash = None\<rparr>
      \<lparr>bqu := snd (Put (=) \<lparr>mu = None, cv_waiters = [Taker], cv_broadcasts = 1,
               bq = \<lparr>data = [1::int], cap_data = 1, set_q = [1], dedup = True\<rparr>\<rparr> 2)\<rparr>) \<noteq> None"
proof -
  let ?b = "\<lparr>mu = None, cv_waiters = [Taker], cv_broadcasts = 1,
             bq = \<lparr>data = [1::int], cap_data = 1, set_q = [1], dedup = True\<rparr>\<rparr>"
  let ?s = "\<lparr>bqu = ?b, cx = Some Background, taker = T_Parked :: int taker,
             watchers = [(W_Select, False)], crash = None\<rparr>"
  have r: "\<not> fst (Put (=) ?b 1)"
    by (simp add: Put_unfold Enqueue_def map_has_def)
  have a: "fst (Put (=) ?b 2)"
    by (simp add: Put_unfold Enqueue_def map_has_def)
  have p: "\<not> fst (Put (=) (bqu ?s) 1) \<and> taker ?s = T_Parked \<and> Taker \<in> set (cv_waiters (bqu ?s))"
    using r by simp
  have w: "fst (Put (=) (bqu ?s) 2) \<and> taker ?s = T_Parked \<and> mu (bqu ?s) = None"
    using a by simp
  from Put_broadcasts_iff_added [where b="?b" and v=1] r have 1: "snd (Put (=) ?b 1) = ?b" by blast
  from Put_broadcasts_iff_added [where s="?s" and v=1] p
  have "step_taker (=) (?s\<lparr>bqu := snd (Put (=) (bqu ?s) 1)\<rparr>) = None" by blast
  then have 2: "step_taker (=) (?s\<lparr>bqu := snd (Put (=) ?b 1)\<rparr>) = None" by simp
  from Put_broadcasts_iff_added [where s="?s" and v=2] w
  have "step_taker (=) (?s\<lparr>bqu := snd (Put (=) (bqu ?s) 2)\<rparr>) \<noteq> None" by blast
  then have 3: "step_taker (=) (?s\<lparr>bqu := snd (Put (=) ?b 2)\<rparr>) \<noteq> None" by simp
  from r 1 2 a 3 show ?thesis by blast
qed

lemmas sys_defs = successors_def own_events_def exec_def step_taker_def step_watcher_def
  List.map_filter_simps Lock_def Unlock_def Broadcast_def Wait_park_def Wait_resume_def
  unlock_then_def Take_init_def ctx_Done_closed_def Dequeue_def

subsection \<open>Take with a context that is already done\<close>

lemma Take_cancelled_run:
  assumes "data (bq b) = []" and "mu b = None"
  shows "returns_within eqT 12
           (\<lambda>r s. r = Inl Canceled \<and> mu (bqu s) = None \<and> bq (bqu s) = bq b)
           (Take_init b (Some (Derived Cancelled)))"
  using assms
  by (auto simp add: eval_nat_numeral sys_defs)

lemma Take_expired_run:
  assumes "data (bq b) = []" and "mu b = None"
  shows "returns_within eqT 12
           (\<lambda>r s. r = Inl DeadlineExceeded \<and> mu (bqu s) = None \<and> bq (bqu s) = bq b)
           (Take_init b (Some (Derived Expired)))"
  using assms
  by (auto simp add: eval_nat_numeral sys_defs)

subsection \<open>Errors returned by Take\<close>

lemma ctx_Err_cases: "ctx_Err c = Some e \<Longrightarrow> e = Canceled \<or> e = DeadlineExceeded"
  by (cases c rule: ctx_Err.cases) simp_all

lemma step_taker_err_ok:
  assumes "err_ok s" "step_taker eqT s = Some s'"
  shows "err_ok s'"
proof (cases "taker s")
  case T_CtxErr
  with assms show ?thesis
    by (auto simp add: step_taker_def err_ok_def unlock_then_def
        split: option.splits sum.splits dest: ctx_Err_cases)
next
  case T_Fast
  with assms show ?thesis
    by (auto simp add: step_taker_def err_ok_def unlock_then_def
        split: option.splits sum.splits prod.splits)
next
  case T_Recheck
  with assms show ?thesis
    by (auto simp add: step_taker_def err_ok_def unlock_then_def
        split: option.splits sum.splits prod.splits)
next
  case T_Close
  with assms show ?thesis
    by (auto simp add: step_taker_def err_ok_def split: list.splits if_splits)
qed (use assms in \<open>auto simp add: step_taker_def err_ok_def split: option.splits sum.splits\<close>)

lemma step_watcher_taker:
  "step_watcher i c s = Some s' \<Longrightarrow> taker s' = taker s"
  by (auto simp add: step_watcher_def split: if_splits prod.splits watcher_pc.splits
      option.splits sum.splits)

lemma step_env_taker:
  "step_env eqT a s = Some s' \<Longrightarrow> taker s' = taker s"
  by (auto simp add: step_env_def split: if_splits env_op.splits)

lemma exec_err_ok:
  assumes "err_ok s" "exec eqT ev s = Some s'"
  shows "err_ok s'"
proof (cases ev)
  case Ev_Taker
  with assms step_taker_err_ok [where s=s and s'=s' and eqT=eqT] show ?thesis
    by (simp add: exec_def split: if_splits)
next
  case (Ev_Watcher i c)
  with assms step_watcher_taker [of i c s s'] show ?thesis
    by (simp add: exec_def err_ok_def split: if_splits)
next
  case (Ev_Env a)
  with assms step_env_taker [where a=a and s=s and s'=s' and eqT=eqT] show ?thesis
    by (simp add: exec_def err_ok_def split: if_splits)
qed

lemma run_err_ok:
  "err_ok s \<Longrightarrow> run eqT evs s = Some s' \<Longrightarrow> err_ok s'"
proof (induction evs arbitrary: s)
  case Nil
  then show ?case by simp
next
  case (Cons ev evs)
  then obtain s1 where 1: "exec eqT ev s = Some s1" "run eqT evs s1 = Some s'"
    by (auto split: option.splits)
  from exec_err_ok [OF Cons.prems(1) 1(1)] Cons.IH 1(2) show ?case by blast
qed

lemma IsContextError_sentinels:
  "IsContextError (Some Canceled)" "IsContextError (Some DeadlineExceeded)"
  "\<not> IsContextError None" "\<not> IsContextError (Some (ErrorString m))"
  by (simp_all add: IsContextError_def errors_Is_def)

lemma Take_error_is_context_error:
  assumes "run eqT evs (Take_init b c) = Some s" "taker s = T_Returned (Inl e)"
  shows "e = Canceled \<or> e = DeadlineExceeded"
proof -
  have "err_ok (Take_init b c)" by (simp add: err_ok_def Take_init_def)
  from run_err_ok [OF this assms(1)] assms(2) show ?thesis by (simp add: err_ok_def)
qed

lemma errors_Is_sentinels:
  "\<not> errors_Is (Some Canceled) DeadlineExceeded" "\<not> errors_Is (Some DeadlineExceeded) Canceled"
  by (simp_all add: errors_Is_def)

text \<open>
  Claim C7. The queue is empty, its mutex is free, the context passed to \<^verbatim>\<open>Take\<close> is
  already done, and no other goroutine touches the queue during the call. Then, however
  the taker and its watcher are scheduled, the system does not crash or get stuck, and
  \<^verbatim>\<open>Take\<close> returns within twelve steps: the error \<^verbatim>\<open>Canceled\<close> when the context was
  cancelled and \<^verbatim>\<open>DeadlineExceeded\<close> when its deadline passed, with the mutex released
  and the queue as it was. Both errors satisfy \<^verbatim>\<open>IsContextError\<close> and neither is the
  other. Moreover, for any queue and context and whatever other goroutines do during the
  call, an error that \<^verbatim>\<open>Take\<close> returns satisfies \<^verbatim>\<open>IsContextError\<close>.
\<close>

theorem Take_done_context_returns_error:
  assumes "data (bq b) = []" and "mu b = None"
  shows
    "returns_within eqT 12
       (\<lambda>r s. r = Inl Canceled \<and> mu (bqu s) = None \<and> bq (bqu s) = bq b)
       (Take_init b (Some (Derived Cancelled))) \<and>
     returns_within eqT 12
       (\<lambda>r s. r = Inl DeadlineExceeded \<and> mu (bqu s) = None \<and> bq (bqu s) = bq b)
       (Take_init b (Some (Derived Expired))) \<and>
     IsContextError (Some Canceled) \<and> IsContextError (Some DeadlineExceeded) \<and>
     \<not> errors_Is (Some Canceled) DeadlineExceeded \<and>
     \<not> errors_Is (Some DeadlineExceeded) Canceled \<and>
     ErrCanceled = Canceled \<and> ErrDeadlineExceeded = DeadlineExceeded \<and>
     (\<forall>evs c s e. run eqT evs (Take_init b c) = Some s \<and> taker s = T_Returned (Inl e)
         \<longrightarrow> IsContextError (Some e))"
proof -
  have "IsContextError (Some e)"
    if "run eqT evs (Take_init b c) = Some s \<and> taker s = T_Returned (Inl e)" for evs c s e
    using Take_error_is_context_error [where evs=evs and b=b and c=c and s=s and e=e and eqT=eqT] that IsContextError_sentinels(1,2)
    by blast
  with Take_cancelled_run [OF assms] Take_expired_run [OF assms] show ?thesis
    by (simp add: IsContextError_sentinels errors_Is_sentinels ErrCanceled_def
        ErrDeadlineExceeded_def)
qed

theorem Take_done_context_returns_error_witness:
  "data (bq (New_bq True :: int bqueue)) = [] \<and> mu (New_bq True :: int bqueue) = None \<and>
   returns_within (=) 12
     (\<lambda>r s. r = Inl Canceled \<and> mu (bqu s) = None \<and> bq (bqu s) = bq (New_bq True :: int bqueue))
     (Take_init (New_bq True) (Some (Derived Cancelled))) \<and>
   run (=) [Ev_Taker, Ev_Taker, Ev_Taker, Ev_Watcher 0 True, Ev_Taker, Ev_Watcher 0 True,
        Ev_Watcher 0 True, Ev_Watcher 0 True, Ev_Taker, Ev_Taker, Ev_Taker, Ev_Taker]
       (Take_init (New_bq True :: int bqueue) (Some (Derived Expired)))
     = Some \<lparr>bqu = \<lparr>mu = None, cv_waiters = [], cv_broadcasts = 1, bq = New True\<rparr>,
             cx = Some (Derived Expired), taker = T_Returned (Inl DeadlineExceeded),
             watchers = [(W_Exit, True)], crash = None\<rparr> \<and>
   IsContextError (Some DeadlineExceeded)"
proof -
  let ?b = "New_bq True :: int bqueue"
  let ?evs = "[Ev_Taker, Ev_Taker, Ev_Taker, Ev_Watcher 0 True, Ev_Taker, Ev_Watcher 0 True,
        Ev_Watcher 0 True, Ev_Watcher 0 True, Ev_Taker, Ev_Taker, Ev_Taker, Ev_Taker]"
  let ?s = "\<lparr>bqu = \<lparr>mu = None, cv_waiters = [], cv_broadcasts = 1, bq = New True\<rparr>,
             cx = Some (Derived Expired), taker = T_Returned (Inl DeadlineExceeded) :: int taker,
             watchers = [(W_Exit, True)], crash = None\<rparr>"
  have e: "data (bq ?b) = []" and m: "mu ?b = None"
    by (simp_all add: New_bq_def New_def)
  have r: "run (=) ?evs (Take_init ?b (Some (Derived Expired))) = Some ?s"
    by (simp add: sys_defs New_bq_def New_def)
  have t: "taker ?s = T_Returned (Inl DeadlineExceeded)" by simp
  note inst = Take_done_context_returns_error [where eqT="(=)", OF e m]
  from inst have 1: "returns_within (=) 12
     (\<lambda>r s. r = Inl Canceled \<and> mu (bqu s) = None \<and> bq (bqu s) = bq ?b)
     (Take_init ?b (Some (Derived Cancelled)))" by blast
  from inst r t have 2: "IsContextError (Some DeadlineExceeded)" by blast
  from e m 1 r 2 show ?thesis by blast
qed

subsection \<open>Take with the background context\<close>

lemma idle_simps [simp]:
  "idle []" "idle (ws @ [(W_Select, closed)])= idle ws"
  by (simp_all add: idle_def)

lemma idle_update: "idle ws \<Longrightarrow> idle (ws[i := (W_Exit, closed)])"
  unfolding idle_def list_all_iff using set_update_subset_insert [of ws i "(W_Exit, closed)"]
  by auto

lemma idle_nth: "idle ws \<Longrightarrow> i < length ws \<Longrightarrow> fst (ws ! i) = W_Select \<or> fst (ws ! i) = W_Exit"
  by (simp add: idle_def list_all_length)

lemma bg_inv_init: "bg_inv (Take_init b None)"
  by (simp add: bg_inv_def Take_init_def holds_mu_def in_round_def)

lemma rev_Cons_last: "rev ws = w # older \<Longrightarrow> ws \<noteq> [] \<and> last ws = w \<and> ws = rev older @ [w]"
  by (metis last_rev list.sel(1) list.simps(3) rev.simps(2) rev_is_Nil_conv rev_rev_ident hd_rev)

lemma step_taker_bg_inv:
  assumes "bg_inv s" "step_taker eqT s = Some s'"
  shows "bg_inv s'"
proof (cases "taker s")
  case T_Lock
  with assms show ?thesis
    by (auto simp add: step_taker_def bg_inv_def Lock_def holds_mu_def in_round_def
        split: if_splits)
next
  case T_Fast
  with assms show ?thesis
    by (auto simp add: step_taker_def bg_inv_def unlock_then_def Unlock_def holds_mu_def
        in_round_def split: prod.splits option.splits)
next
  case T_Spawn
  with assms show ?thesis
    by (auto simp add: step_taker_def bg_inv_def holds_mu_def in_round_def)
next
  case T_Wait
  with assms show ?thesis
    by (auto simp add: step_taker_def bg_inv_def Wait_park_def Unlock_def holds_mu_def
        in_round_def split: if_splits)
next
  case T_Parked
  with assms show ?thesis
    by (auto simp add: step_taker_def bg_inv_def Wait_resume_def Lock_def holds_mu_def
        in_round_def split: if_splits)
next
  case T_Close
  with assms obtain pc closed older where r: "rev (watchers s) = (pc, closed) # older"
    by (auto simp add: step_taker_def split: list.splits)
  from rev_Cons_last [OF r] have l: "last (watchers s) = (pc, closed)"
    and w: "watchers s = rev older @ [(pc, closed)]" by simp_all
  from assms T_Close l have nc: "\<not> closed" by (simp add: bg_inv_def in_round_def)
  with assms T_Close r have s': "s' = s\<lparr>watchers := rev ((pc, True) # older), taker := T_Recheck\<rparr>"
    by (simp add: step_taker_def)
  from assms(1) w have "idle (rev ((pc, True) # older))"
    by (auto simp add: bg_inv_def idle_def)
  with assms(1) T_Close show ?thesis unfolding s'
    by (simp add: bg_inv_def holds_mu_def in_round_def)
next
  case T_Recheck
  with assms show ?thesis
    by (auto simp add: step_taker_def bg_inv_def unlock_then_def Unlock_def holds_mu_def
        in_round_def split: prod.splits option.splits)
next
  case T_CtxErr
  with assms show ?thesis
    by (auto simp add: step_taker_def bg_inv_def holds_mu_def in_round_def)
next
  case (T_Returned r)
  with assms show ?thesis by (simp add: step_taker_def)
qed

lemma last_list_update_snd:
  assumes "i < length ws" "ws ! i = (pc, closed)"
  shows "snd (last (ws[i := (pc', closed)])) = snd (last ws)"
proof -
  from assms(1) have ne: "ws \<noteq> []" by auto
  show ?thesis
  proof (cases "i = length ws - 1")
    case True
    with assms ne have "last ws = (pc, closed)" by (simp add: last_conv_nth)
    with True ne show ?thesis by (simp add: last_list_update)
  next
    case False
    with ne show ?thesis by (simp add: last_list_update)
  qed
qed

lemma step_watcher_bg_inv:
  assumes "bg_inv s" "step_watcher i c s = Some s'"
  shows "bg_inv s'"
proof -
  from assms(2) have i: "i < length (watchers s)"
    by (simp add: step_watcher_def split: if_splits)
  obtain pc closed where w: "watchers s ! i = (pc, closed)" by (cases "watchers s ! i")
  from assms(1) i w have pc: "pc = W_Select \<or> pc = W_Exit"
    using idle_nth [of "watchers s" i] by (simp add: bg_inv_def)
  from assms i w pc have s': "s' = s\<lparr>watchers := (watchers s)[i := (W_Exit, closed)]\<rparr>"
    by (auto simp add: step_watcher_def bg_inv_def ctx_Done_closed_def split: if_splits)
  from assms(1) have a: "idle ((watchers s)[i := (W_Exit, closed)])"
    by (simp add: bg_inv_def idle_update)
  from last_list_update_snd [OF i w]
  have b: "snd (last ((watchers s)[i := (W_Exit, closed)])) = snd (last (watchers s))" .
  from assms(1) a b show ?thesis unfolding s'
    by (simp add: bg_inv_def)
qed

lemma Put_mu: "mu (snd (Put eqT b v)) = mu b"
  by (simp add: Put_unfold Broadcast_def)

lemma PutMany_mu: "mu (snd (PutMany eqT b vs)) = mu b"
  by (simp add: PutMany_unfold Broadcast_def)

lemma step_env_bg_inv:
  assumes "bg_inv s" "step_env eqT a s = Some s'"
  shows "bg_inv s'"
  using assms
  by (cases a)
     (auto simp add: step_env_def bg_inv_def Put_mu PutMany_mu TryTake_def Remove_bq_def
       Clear_bq_def case_prod_beta split: if_splits)

lemma exec_bg_inv:
  assumes "bg_inv s" "exec eqT ev s = Some s'"
  shows "bg_inv s'"
  using assms step_taker_bg_inv [where s=s and s'=s' and eqT=eqT]
    step_env_bg_inv [where s=s and s'=s' and eqT=eqT]
    step_watcher_bg_inv [of s _ _ s']
  by (cases ev) (simp_all add: exec_def split: if_splits)

lemma run_bg_inv:
  "bg_inv s \<Longrightarrow> run eqT evs s = Some s' \<Longrightarrow> bg_inv s'"
proof (induction evs arbitrary: s)
  case Nil
  then show ?case by simp
next
  case (Cons ev evs)
  then obtain s1 where 1: "exec eqT ev s = Some s1" "run eqT evs s1 = Some s'"
    by (auto split: option.splits)
  from exec_bg_inv [OF Cons.prems(1) 1(1)] Cons.IH 1(2) show ?case by blast
qed

lemma Take_nil_head:
  assumes "data (bq b) = x # xs" "mu b = None"
  shows "returns_within eqT 2
           (\<lambda>r s. r = Inr x \<and> data (bq (bqu s)) = xs \<and> mu (bqu s) = None)
           (Take_init b None)"
  using assms by (auto simp add: eval_nat_numeral sys_defs Let_def)

text \<open>
  With the background context and an empty queue the taker parks and, left alone, stays
  parked: nothing in the system wakes it.
\<close>

lemma Take_background_empty_parks:
  "\<not> returns_within eqT 20 (\<lambda>r s. True) (Take_init (New_bq d) None)"
  by (simp add: eval_nat_numeral sys_defs New_bq_def New_def)

text \<open>
  Claim C10. \<^verbatim>\<open>Take\<close> accepts a nil context and runs with the background context in
  its place. On a queue that is not empty, with the mutex free, it returns the head
  value and a nil error in two steps. From any queue, whatever the schedule and whatever
  other goroutines do, the context stays the background context, nothing panics, and
  \<^verbatim>\<open>Take\<close> never returns an error.
\<close>

theorem Take_nil_context:
  "cx (Take_init b None) = Some Background \<and>
   (data (bq b) = x # xs \<and> mu b = None \<longrightarrow>
      returns_within eqT 2
        (\<lambda>r s. r = Inr x \<and> data (bq (bqu s)) = xs \<and> mu (bqu s) = None)
        (Take_init b None)) \<and>
   (\<forall>evs s. run eqT evs (Take_init b None) = Some s \<longrightarrow>
      cx s = Some Background \<and> crash s = None \<and> (\<forall>e. taker s \<noteq> T_Returned (Inl e)))"
proof -
  have "cx s = Some Background \<and> crash s = None \<and> (\<forall>e. taker s \<noteq> T_Returned (Inl e))"
    if "run eqT evs (Take_init b None) = Some s" for evs s
    using run_bg_inv [OF bg_inv_init that] by (auto simp add: bg_inv_def)
  moreover have "cx (Take_init b None) = Some Background"
    by (simp add: Take_init_def)
  ultimately show ?thesis
    using Take_nil_head [where b=b and x=x and xs=xs and eqT=eqT] by blast
qed

theorem Take_nil_context_witness:
  "data (bq \<lparr>mu = None, cv_waiters = [], cv_broadcasts = 1,
             bq = \<lparr>data = [5::int], cap_data = 1, set_q = [], dedup = False\<rparr>\<rparr>) = [5] \<and>
   returns_within (=) 2
     (\<lambda>r s. r = Inr 5 \<and> data (bq (bqu s)) = [] \<and> mu (bqu s) = None)
     (Take_init \<lparr>mu = None, cv_waiters = [], cv_broadcasts = 1,
                 bq = \<lparr>data = [5::int], cap_data = 1, set_q = [], dedup = False\<rparr>\<rparr> None) \<and>
   run (=) [Ev_Taker, Ev_Env (E_Put 7), Ev_Taker, Ev_Env E_Cancel]
     (Take_init \<lparr>mu = None, cv_waiters = [], cv_broadcasts = 1,
                 bq = \<lparr>data = [5::int], cap_data = 1, set_q = [], dedup = False\<rparr>\<rparr> None)
     = None \<and>
   run (=) [Ev_Taker, Ev_Taker, Ev_Env (E_Put 7), Ev_Env E_Cancel]
     (Take_init \<lparr>mu = None, cv_waiters = [], cv_broadcasts = 1,
                 bq = \<lparr>data = [5::int], cap_data = 1, set_q = [], dedup = False\<rparr>\<rparr> None)
     = Some \<lparr>bqu = \<lparr>mu = None, cv_waiters = [], cv_broadcasts = 2,
                     bq = \<lparr>data = [7], cap_data = 1, set_q = [], dedup = False\<rparr>\<rparr>,
             cx = Some Background, taker = T_Returned (Inr 5), watchers = [], crash = None\<rparr> \<and>
   crash \<lparr>bqu = \<lparr>mu = None, cv_waiters = [], cv_broadcasts = 2,
                     bq = \<lparr>data = [7::int], cap_data = 1, set_q = [], dedup = False\<rparr>\<rparr>,
             cx = Some Background, taker = T_Returned (Inr (5::int)), watchers = [], crash = None\<rparr>
     = None"
proof -
  let ?b = "\<lparr>mu = None, cv_waiters = [], cv_broadcasts = 1,
             bq = \<lparr>data = [5::int], cap_data = 1, set_q = [], dedup = False\<rparr>\<rparr>"
  let ?s = "\<lparr>bqu = \<lparr>mu = None, cv_waiters = [], cv_broadcasts = 2,
                     bq = \<lparr>data = [7::int], cap_data = 1, set_q = [], dedup = False\<rparr>\<rparr>,
             cx = Some Background, taker = T_Returned (Inr (5::int)), watchers = [], crash = None\<rparr>"
  have d: "data (bq ?b) = 5 # [] \<and> mu ?b = None" by simp
  have blocked: "run (=) [Ev_Taker, Ev_Env (E_Put 7), Ev_Taker, Ev_Env E_Cancel] (Take_init ?b None) = None"
    by (simp add: sys_defs step_env_def)
  have r: "run (=) [Ev_Taker, Ev_Taker, Ev_Env (E_Put 7), Ev_Env E_Cancel] (Take_init ?b None) = Some ?s"
    by (simp add: sys_defs step_env_def Put_unfold Enqueue_def append_cap_def growslice_def)
  note inst = Take_nil_context [where b="?b" and x=5 and xs="[]"]
  from inst d have 1: "returns_within (=) 2
     (\<lambda>r s. r = Inr 5 \<and> data (bq (bqu s)) = [] \<and> mu (bqu s) = None) (Take_init ?b None)"
    by blast
  from inst r have 2: "crash ?s = None" by blast
  from d 1 blocked r 2 show ?thesis by simp
qed

end
